theory Spec2Isabelle
  imports Complex_Main "HOL-Library.Word"
begin

section \<open>Python values the reader works on\<close>

text \<open>
  A \<open>bytes\<close> object is a list of 8-bit words. Python integers are unbounded (\<open>int\<close>).
  The true division \<open>/\<close> of the legacy decoder yields a float; it is modelled by the exact
  quotient in \<open>rat\<close>, so rounding to the nearest double is not part of the model.
  Every exception the reader can raise is a constructor of \<open>error\<close>, and a function
  that can raise returns \<open>error + 'a\<close> with \<open>Inl\<close> for the exception.
\<close>

type_synonym byte = "8 word"

datatype error = StructError | KeyError | ValueError | IndexError | NotImplementedError

definition ebind :: "error + 'a \<Rightarrow> ('a \<Rightarrow> error + 'b) \<Rightarrow> error + 'b" where
  "ebind m f = (case m of Inl e \<Rightarrow> Inl e | Inr x \<Rightarrow> f x)"

text \<open>The slice \<open>xs[i:j]\<close>: negative bounds count from the end, and both are clamped.\<close>

definition py_slice :: "'a list \<Rightarrow> int \<Rightarrow> int \<Rightarrow> 'a list" where
  "py_slice xs i j =
     (let n = int (length xs);
          a = (if i < 0 then max 0 (n + i) else min i n);
          b = (if j < 0 then max 0 (n + j) else min j n)
      in take (nat (b - a)) (drop (nat a) xs))"

subsection \<open>The struct module, little-endian without padding (\<open><\<close>)\<close>

text \<open>
  One constructor per format character the reader uses: \<open>B\<close>, \<open>b\<close>, \<open>H\<close>, \<open>h\<close>, \<open>I\<close>,
  \<open>i\<close>, \<open>Q\<close>, \<open>q\<close>, \<open>f\<close> and \<open>ns\<close>. A float field keeps its four raw bytes as a
  32-bit pattern: IEEE arithmetic is not modelled.
\<close>

datatype fmt = Fmt_B | Fmt_b | Fmt_H | Fmt_h | Fmt_I | Fmt_i | Fmt_Q | Fmt_q | Fmt_f | Fmt_s nat

datatype pyval = VInt int | VBytes "byte list" | VFloat "32 word"

fun field_size :: "fmt \<Rightarrow> nat" where
  "field_size Fmt_B = 1"
| "field_size Fmt_b = 1"
| "field_size Fmt_H = 2"
| "field_size Fmt_h = 2"
| "field_size Fmt_I = 4"
| "field_size Fmt_i = 4"
| "field_size Fmt_Q = 8"
| "field_size Fmt_q = 8"
| "field_size Fmt_f = 4"
| "field_size (Fmt_s n) = n"

definition calcsize :: "fmt list \<Rightarrow> nat" where
  "calcsize fs = sum_list (map field_size fs)"

fun le_nat :: "byte list \<Rightarrow> nat" where
  "le_nat [] = 0"
| "le_nat (b # bs) = unat b + 256 * le_nat bs"

definition le_int :: "byte list \<Rightarrow> int" where
  "le_int bs =
     (if 2 * le_nat bs \<ge> 2 ^ (8 * length bs)
      then int (le_nat bs) - 2 ^ (8 * length bs) else int (le_nat bs))"

fun decode_field :: "fmt \<Rightarrow> byte list \<Rightarrow> pyval" where
  "decode_field Fmt_B bs = VInt (int (le_nat bs))"
| "decode_field Fmt_H bs = VInt (int (le_nat bs))"
| "decode_field Fmt_I bs = VInt (int (le_nat bs))"
| "decode_field Fmt_Q bs = VInt (int (le_nat bs))"
| "decode_field Fmt_b bs = VInt (le_int bs)"
| "decode_field Fmt_h bs = VInt (le_int bs)"
| "decode_field Fmt_i bs = VInt (le_int bs)"
| "decode_field Fmt_q bs = VInt (le_int bs)"
| "decode_field Fmt_f bs = VFloat (word_of_nat (le_nat bs))"
| "decode_field (Fmt_s n) bs = VBytes bs"

fun unpack_fields :: "fmt list \<Rightarrow> byte list \<Rightarrow> pyval list" where
  "unpack_fields [] bs = []"
| "unpack_fields (c # cs) bs =
     decode_field c (take (field_size c) bs) # unpack_fields cs (drop (field_size c) bs)"

text \<open>\<open>struct.unpack\<close> raises \<open>struct.error\<close> unless the buffer has exactly the size of the format.\<close>

definition struct_unpack :: "fmt list \<Rightarrow> byte list \<Rightarrow> error + pyval list" where
  "struct_unpack fs bs =
     (if length bs = calcsize fs then Inr (unpack_fields fs bs) else Inl StructError)"

text \<open>Reading an unpacked integer; the reader only does so at integer format characters.\<close>

fun the_int :: "pyval \<Rightarrow> int" where
  "the_int (VInt i) = i"

fun the_float :: "pyval \<Rightarrow> 32 word" where
  "the_float (VFloat w) = w"

subsection \<open>Calendar timestamps\<close>

record datetime =
  year :: int
  month :: int
  day :: int
  hour :: int
  minute :: int
  second :: int

definition is_leap :: "int \<Rightarrow> bool" where
  "is_leap y = (y mod 4 = 0 \<and> (y mod 100 \<noteq> 0 \<or> y mod 400 = 0))"

definition days_in_month :: "int \<Rightarrow> int \<Rightarrow> int" where
  "days_in_month y m =
     (if m = 2 then (if is_leap y then 29 else 28)
      else if m = 4 \<or> m = 6 \<or> m = 9 \<or> m = 11 then 30 else 31)"

definition valid_date :: "int \<Rightarrow> int \<Rightarrow> int \<Rightarrow> int \<Rightarrow> int \<Rightarrow> int \<Rightarrow> bool" where
  "valid_date Y M D h m s =
     (1 \<le> Y \<and> Y \<le> 9999 \<and> 1 \<le> M \<and> M \<le> 12 \<and> 1 \<le> D \<and> D \<le> days_in_month Y M \<and>
      0 \<le> h \<and> h \<le> 23 \<and> 0 \<le> m \<and> m \<le> 59 \<and> 0 \<le> s \<and> s \<le> 59)"

text \<open>The constructor \<open>datetime(Y, M, D, h, m, s)\<close> raises \<open>ValueError\<close> outside the calendar.\<close>

definition mk_datetime :: "int \<Rightarrow> int \<Rightarrow> int \<Rightarrow> int \<Rightarrow> int \<Rightarrow> int \<Rightarrow> error + datetime" where
  "mk_datetime Y M D h m s =
     (if valid_date Y M D h m s
      then Inr \<lparr>year = Y, month = M, day = D, hour = h, minute = m, second = s\<rparr>
      else Inl ValueError)"

section \<open>The legacy record decoder\<close>

text \<open>
  The tables \<open>multiplier_dict\<close> and \<open>state_dict\<close> of \<open>NewareNDA.dicts\<close> are parameters:
  \<open>md\<close> maps a range code to its multiplier, \<open>sd\<close> a status code to its state. A
  subscript on a missing key raises \<open>KeyError\<close>.
\<close>

definition dict_get :: "('k \<rightharpoonup> 'v) \<Rightarrow> 'k \<Rightarrow> error + 'v" where
  "dict_get d k = (case d k of None \<Rightarrow> Inl KeyError | Some v \<Rightarrow> Inr v)"

record 'st main_row =
  Index :: int
  Cycle :: int
  Step :: int
  Status :: 'st
  Time :: rat
  Voltage :: rat
  Current :: rat
  Charge_capacity :: rat
  Discharge_capacity :: rat
  Charge_energy :: rat
  Discharge_energy :: rat
  Timestamp :: datetime

definition bytes_to_list_ndc ::
  "(int \<rightharpoonup> rat) \<Rightarrow> (int \<rightharpoonup> 'st) \<Rightarrow> byte list \<Rightarrow> error + 'st main_row" where
  "bytes_to_list_ndc md sd bytes =
     ebind (struct_unpack [Fmt_I, Fmt_I] (py_slice bytes 8 16)) (\<lambda>ic.
     ebind (struct_unpack [Fmt_B] (py_slice bytes 16 17)) (\<lambda>st.
     ebind (struct_unpack [Fmt_B] (py_slice bytes 17 18)) (\<lambda>sta.
     ebind (struct_unpack [Fmt_Q] (py_slice bytes 23 31)) (\<lambda>ti.
     ebind (struct_unpack [Fmt_i, Fmt_i] (py_slice bytes 31 39)) (\<lambda>vc.
     ebind (struct_unpack [Fmt_q, Fmt_q] (py_slice bytes 43 59)) (\<lambda>cap.
     ebind (struct_unpack [Fmt_q, Fmt_q] (py_slice bytes 59 75)) (\<lambda>en.
     ebind (struct_unpack [Fmt_H, Fmt_B, Fmt_B, Fmt_B, Fmt_B, Fmt_B] (py_slice bytes 75 82)) (\<lambda>dt.
     ebind (struct_unpack [Fmt_i] (py_slice bytes 82 86)) (\<lambda>rg.
     ebind (dict_get md (the_int (rg ! 0))) (\<lambda>multiplier.
     ebind (dict_get sd (the_int (sta ! 0))) (\<lambda>state.
     ebind (mk_datetime (the_int (dt ! 0)) (the_int (dt ! 1)) (the_int (dt ! 2))
                        (the_int (dt ! 3)) (the_int (dt ! 4)) (the_int (dt ! 5))) (\<lambda>stamp.
     Inr \<lparr>Index = the_int (ic ! 0),
          Cycle = the_int (ic ! 1) + 1,
          Step = the_int (st ! 0),
          Status = state,
          Time = of_int (the_int (ti ! 0)) / 1000,
          Voltage = of_int (the_int (vc ! 0)) / 10000,
          Current = of_int (the_int (vc ! 1)) * multiplier,
          Charge_capacity = of_int (the_int (cap ! 0)) * multiplier / 3600,
          Discharge_capacity = of_int (the_int (cap ! 1)) * multiplier / 3600,
          Charge_energy = of_int (the_int (en ! 0)) * multiplier / 3600,
          Discharge_energy = of_int (the_int (en ! 1)) * multiplier / 3600,
          Timestamp = stamp\<rparr>))))))))))))"

text \<open>
  The auxiliary decoders return \<open>[Index, Aux, V/10000, T/10]\<close> and, for the \<open>0x74\<close>
  variant, a fifth entry \<open>t/10\<close>: the field \<open>a_t\<close> is \<open>None\<close> for a four-entry row.
\<close>

record aux_row =
  a_Index :: int
  a_Aux :: int
  a_V :: rat
  a_T :: rat
  a_t :: "rat option"

definition aux_bytes_65_to_list_ndc :: "byte list \<Rightarrow> error + aux_row" where
  "aux_bytes_65_to_list_ndc bytes =
     ebind (struct_unpack [Fmt_B] (py_slice bytes 3 4)) (\<lambda>au.
     ebind (struct_unpack [Fmt_I] (py_slice bytes 8 12)) (\<lambda>ix.
     ebind (struct_unpack [Fmt_h] (py_slice bytes 41 43)) (\<lambda>te.
     ebind (struct_unpack [Fmt_i] (py_slice bytes 31 35)) (\<lambda>vo.
     Inr \<lparr>a_Index = the_int (ix ! 0), a_Aux = the_int (au ! 0),
          a_V = of_int (the_int (vo ! 0)) / 10000, a_T = of_int (the_int (te ! 0)) / 10,
          a_t = None\<rparr>))))"

definition aux_bytes_74_to_list_ndc :: "byte list \<Rightarrow> error + aux_row" where
  "aux_bytes_74_to_list_ndc bytes =
     ebind (struct_unpack [Fmt_B] (py_slice bytes 3 4)) (\<lambda>au.
     ebind (struct_unpack [Fmt_I] (py_slice bytes 8 12)) (\<lambda>ix.
     ebind (struct_unpack [Fmt_i] (py_slice bytes 31 35)) (\<lambda>vo.
     ebind (struct_unpack [Fmt_h, Fmt_h] (py_slice bytes 41 45)) (\<lambda>te.
     Inr \<lparr>a_Index = the_int (ix ! 0), a_Aux = the_int (au ! 0),
          a_V = of_int (the_int (vo ! 0)) / 10000, a_T = of_int (the_int (te ! 0)) / 10,
          a_t = Some (of_int (the_int (te ! 1)) / 10)\<rparr>))))"

section \<open>The legacy stream scanner\<close>

text \<open>
  One pass of the loop body of \<open>read_ndc\<close>: the slice is routed by its leading byte and the
  decoded row is appended to \<open>output\<close> or to \<open>aux\<close>. An unknown leading byte only logs a
  warning, which leaves both lists as they are.
\<close>

definition ndc_record ::
  "(int \<rightharpoonup> rat) \<Rightarrow> (int \<rightharpoonup> 'st) \<Rightarrow> byte list \<Rightarrow> 'st main_row list \<Rightarrow> aux_row list
     \<Rightarrow> error + ('st main_row list \<times> aux_row list)" where
  "ndc_record md sd bytes output aux =
     (if py_slice bytes 0 1 = [0x55]
        then ebind (bytes_to_list_ndc md sd bytes) (\<lambda>r. Inr (output @ [r], aux))
      else if py_slice bytes 0 1 = [0x65]
        then ebind (aux_bytes_65_to_list_ndc bytes) (\<lambda>a. Inr (output, aux @ [a]))
      else if py_slice bytes 0 1 = [0x74]
        then ebind (aux_bytes_74_to_list_ndc bytes) (\<lambda>a. Inr (output, aux @ [a]))
      else Inr (output, aux))"

text \<open>
  \<open>mm.find(sub, start)\<close> on the memory map: \<open>start\<close> is clamped to the size, and the
  result is the lowest position from there at which \<open>sub\<close> lies wholly inside the map;
  \<open>None\<close> is the return value \<open>-1\<close>. An empty \<open>sub\<close> is found at the clamped start.
\<close>

definition mm_find :: "byte list \<Rightarrow> byte list \<Rightarrow> nat \<Rightarrow> nat option" where
  "mm_find mm sub start =
     List.find (\<lambda>p. take (length sub) (drop p mm) = sub)
       [min start (length mm) ..< Suc (length mm) - length sub]"

text \<open>
  The loop \<open>while header != -1\<close>. \<open>mm.seek\<close> raises \<open>ValueError\<close> beyond the end of the map
  and \<open>mm.read(94)\<close> returns the bytes that are left when fewer than 94 remain. The loop
  need not terminate (an empty identifier is found again and again at the end of the
  map), so it is a partial function: \<open>None\<close> means that the loop never returns.
\<close>

partial_function (option) ndc_scan ::
  "(int \<rightharpoonup> rat) \<Rightarrow> (int \<rightharpoonup> 'st) \<Rightarrow> byte list \<Rightarrow> byte list \<Rightarrow> nat
     \<Rightarrow> 'st main_row list \<Rightarrow> aux_row list
     \<Rightarrow> (error + ('st main_row list \<times> aux_row list)) option" where
  "ndc_scan md sd mm identifier header output aux =
     (if length mm < header then Some (Inl ValueError)
      else case ndc_record md sd (take 94 (drop header mm)) output aux of
          Inl e \<Rightarrow> Some (Inl e)
        | Inr oa \<Rightarrow>
            (case mm_find mm identifier (header + 94) of
               None \<Rightarrow> Some (Inr oa)
             | Some h \<Rightarrow> ndc_scan md sd mm identifier h (fst oa) (snd oa)))"

subsection \<open>Assembling the tables\<close>

text \<open>
  A table of main records is the list of its rows in positional order, so that
  \<open>reset_index(drop=True)\<close> changes nothing in the model. \<open>drop_duplicates(subset='Index')\<close>
  keeps the first row of every Index value.
\<close>

fun drop_duplicates :: "int list \<Rightarrow> ('st, 'z) main_row_scheme list \<Rightarrow> ('st, 'z) main_row_scheme list" where
  "drop_duplicates seen [] = []"
| "drop_duplicates seen (r # rs) =
     (if Index r \<in> set seen then drop_duplicates seen rs
      else r # drop_duplicates (Index r # seen) rs)"

text \<open>
  \<open>sort_values('Index')\<close>. The quicksort of pandas is not stable, but the rows it sorts here
  have pairwise different Index values, for which every sorting algorithm gives the same
  table; the model uses insertion sort.
\<close>

definition sort_values :: "('st, 'z) main_row_scheme list \<Rightarrow> ('st, 'z) main_row_scheme list" where
  "sort_values df = sort_key Index df"

text \<open>
  Modelled from the spec: \<open>dtype_dict\<close> of \<open>NewareNDA.dicts\<close> is not part of the sources.
  The data model declares \<open>index: u32\<close>, so \<open>astype\<close> casts the Index column to an unsigned
  32-bit integer (numpy wraps around); the casts of the other columns are the parameter
  \<open>cast\<close>.
\<close>

definition astype :: "('st main_row \<Rightarrow> 'st main_row) \<Rightarrow> 'st main_row \<Rightarrow> 'st main_row" where
  "astype cast r = (cast r)\<lparr>Index := Index r mod 2 ^ 32\<rparr>"

definition assemble_main :: "('st main_row \<Rightarrow> 'st main_row) \<Rightarrow> 'st main_row list \<Rightarrow> 'st main_row list" where
  "assemble_main cast output =
     (let df = drop_duplicates [] output;
          df = (if sorted (map Index df) then df else sort_values df)
      in map (astype cast) df)"

text \<open>
  The auxiliary table: its column names and its rows. \<open>pd.DataFrame(aux, columns=cols)\<close>
  raises \<open>ValueError\<close> when a row has not as many entries as there are columns.
\<close>

record aux_table =
  columns :: "string list"
  rows :: "aux_row list"

definition aux_width :: "aux_row \<Rightarrow> nat" where
  "aux_width a = (if a_t a = None then 4 else 5)"

definition DataFrame :: "aux_row list \<Rightarrow> string list \<Rightarrow> error + aux_table" where
  "DataFrame aux cols =
     (if list_all (\<lambda>a. aux_width a = length cols) aux
      then Inr \<lparr>columns = cols, rows = aux\<rparr> else Inl ValueError)"

definition assemble_aux :: "byte list \<Rightarrow> aux_row list \<Rightarrow> error + aux_table" where
  "assemble_aux identifier aux =
     (if py_slice identifier 0 1 = [0x65]
        then DataFrame aux [''Index'', ''Aux'', ''V'', ''T'']
      else if py_slice identifier 0 1 = [0x74]
        then DataFrame aux [''Index'', ''Aux'', ''V'', ''T'', ''t'']
      else Inr \<lparr>columns = [], rows = []\<rparr>)"

definition read_ndc ::
  "(int \<rightharpoonup> rat) \<Rightarrow> (int \<rightharpoonup> 'st) \<Rightarrow> ('st main_row \<Rightarrow> 'st main_row) \<Rightarrow> byte list
     \<Rightarrow> (error + ('st main_row list \<times> aux_table)) option" where
  "read_ndc md sd cast mm =
     (let identifier = py_slice mm 517 525
      in case ndc_scan md sd mm identifier 517 [] [] of
           None \<Rightarrow> None
         | Some (Inl e) \<Rightarrow> Some (Inl e)
         | Some (Inr oa) \<Rightarrow>
             Some (ebind (assemble_aux identifier (snd oa))
                     (\<lambda>aux_df. Inr (assemble_main cast (fst oa), aux_df))))"

section \<open>The fixed-block scanners\<close>

text \<open>
  \<open>struct.iter_unpack\<close> raises \<open>struct.error\<close> at once unless the length of the buffer is a
  multiple of the size of the format; otherwise it yields the sub-records in order.
\<close>

definition chunks :: "nat \<Rightarrow> 'a list \<Rightarrow> 'a list list" where
  "chunks n xs = map (\<lambda>k. take n (drop (k * n) xs)) [0 ..< length xs div n]"

definition struct_iter_unpack :: "fmt list \<Rightarrow> byte list \<Rightarrow> error + pyval list list" where
  "struct_iter_unpack fs bs =
     (if calcsize fs = 0 \<or> length bs mod calcsize fs \<noteq> 0 then Inl StructError
      else Inr (map (unpack_fields fs) (chunks (calcsize fs) bs)))"

text \<open>
  The three scanners share one loop: \<open>while mm.tell() < mm_size\<close> reads a block of at most
  4096 bytes and runs the scanner's inner \<open>for\<close> loop \<open>body\<close> on it, which appends to \<open>rec\<close>.
  \<open>mm.seek(4096)\<close> raises \<open>ValueError\<close> when the map is shorter than the header.
\<close>

function scan_blocks ::
  "(byte list \<Rightarrow> 'r list \<Rightarrow> error + 'r list) \<Rightarrow> byte list \<Rightarrow> nat \<Rightarrow> 'r list \<Rightarrow> error + 'r list" where
  "scan_blocks body mm pos rec =
     (if pos < length mm
      then (case body (take 4096 (drop pos mm)) rec of
              Inl e \<Rightarrow> Inl e
            | Inr rec' \<Rightarrow> scan_blocks body mm (pos + length (take 4096 (drop pos mm))) rec')
      else Inr rec)"
  by pat_completeness auto
termination
  by (relation "measure (\<lambda>(body, mm, pos, rec). length mm - pos)") auto

declare scan_blocks.simps [simp del]

definition read_blocks ::
  "(byte list \<Rightarrow> 'r list \<Rightarrow> error + 'r list) \<Rightarrow> byte list \<Rightarrow> error + 'r list" where
  "read_blocks body mm = (if length mm < 4096 then Inl ValueError else scan_blocks body mm 4096 [])"

subsection \<open>Main samples\<close>

text \<open>
  The two \<open>f\<close> fields are floats. Their arithmetic is a parameter: \<open>f32\<close> is the float of a
  bit pattern and \<open>div10000\<close> the division \<open>i[0]/10000\<close>.
\<close>

record 'f sample_row =
  s_Voltage :: 'f
  s_Current :: 'f
  s_Index :: int

definition ndc_8_block ::
  "(32 word \<Rightarrow> 'f) \<Rightarrow> ('f \<Rightarrow> 'f) \<Rightarrow> byte list \<Rightarrow> ('f \<times> 'f) list \<Rightarrow> error + ('f \<times> 'f) list" where
  "ndc_8_block f32 div10000 bytes rec =
     ebind (struct_iter_unpack [Fmt_f, Fmt_f] (py_slice bytes 132 (- 4)))
       (\<lambda>its. Inr (rec @ map (\<lambda>i. (div10000 (f32 (the_float (i ! 0))), f32 (the_float (i ! 1)))) its))"

text \<open>\<open>df['Index'] = df.index + 1\<close>: the row at position \<open>k\<close> gets the Index \<open>k + 1\<close>.\<close>

definition read_ndc_8 ::
  "(32 word \<Rightarrow> 'f) \<Rightarrow> ('f \<Rightarrow> 'f) \<Rightarrow> byte list \<Rightarrow> error + 'f sample_row list" where
  "read_ndc_8 f32 div10000 mm =
     ebind (read_blocks (ndc_8_block f32 div10000) mm)
       (\<lambda>rec. Inr (map (\<lambda>(k, vc). \<lparr>s_Voltage = fst vc, s_Current = snd vc, s_Index = int k + 1\<rparr>)
                      (enumerate 0 rec)))"

subsection \<open>Run-info\<close>

record runInfo_row =
  ri_Time :: rat
  ri_Timestamp :: int
  ri_Step :: int
  ri_Index :: int

fun runInfo_records :: "pyval list list \<Rightarrow> runInfo_row list \<Rightarrow> runInfo_row list" where
  "runInfo_records [] rec = rec"
| "runInfo_records (i # its) rec =
     (if the_int (i ! 4) \<noteq> 0
      then runInfo_records its
             (rec @ [\<lparr>ri_Time = of_int (the_int (i ! 0)) / 1000, ri_Timestamp = the_int (i ! 2),
                      ri_Step = the_int (i ! 3), ri_Index = the_int (i ! 4)\<rparr>])
      else runInfo_records its rec)"

definition runInfo_block :: "byte list \<Rightarrow> runInfo_row list \<Rightarrow> error + runInfo_row list" where
  "runInfo_block bytes rec =
     ebind (struct_iter_unpack [Fmt_i, Fmt_s 29, Fmt_i, Fmt_i, Fmt_i, Fmt_s 2] (py_slice bytes 132 (- 63)))
       (\<lambda>its. Inr (runInfo_records its rec))"

text \<open>
  Modelled from the spec: \<open>_count_changes\<close> of \<open>NewareNDA.NewareNDA\<close> is not part of the
  sources. The spec describes it as a counter that starts at 1 and increments exactly when
  the raw value differs from the one of the previous record. \<open>count_changes_from prev c\<close>
  carries the previous raw value and the counter reached so far.
\<close>

fun count_changes_from :: "int \<Rightarrow> int \<Rightarrow> int list \<Rightarrow> int list" where
  "count_changes_from prev c [] = []"
| "count_changes_from prev c (x # xs) =
     (if x \<noteq> prev then (c + 1) # count_changes_from x (c + 1) xs
      else c # count_changes_from x c xs)"

fun count_changes :: "int list \<Rightarrow> int list" where
  "count_changes [] = []"
| "count_changes (x # xs) = 1 # count_changes_from x 1 xs"

definition set_Step :: "runInfo_row list \<Rightarrow> int list \<Rightarrow> runInfo_row list" where
  "set_Step df steps = map (\<lambda>(r, s). r\<lparr>ri_Step := s\<rparr>) (zip df steps)"

definition read_data_runInfo_ndc8 :: "byte list \<Rightarrow> error + runInfo_row list" where
  "read_data_runInfo_ndc8 mm =
     ebind (read_blocks runInfo_block mm)
       (\<lambda>df. Inr (set_Step df (count_changes (map ri_Step df))))"

subsection \<open>Step summaries\<close>

record 'st step_row =
  st_Cycle :: int
  st_Step_Index :: int
  st_Status :: 'st
  st_Step :: int

fun step_records ::
  "(int \<rightharpoonup> 'st) \<Rightarrow> pyval list list \<Rightarrow> (int \<times> int \<times> 'st) list \<Rightarrow> error + (int \<times> int \<times> 'st) list" where
  "step_records sd [] rec = Inr rec"
| "step_records sd (i # its) rec =
     (if the_int (i ! 1) \<noteq> 0
      then (case dict_get sd (the_int (i ! 3)) of
              Inl e \<Rightarrow> Inl e
            | Inr state \<Rightarrow> step_records sd its (rec @ [(the_int (i ! 0) + 1, the_int (i ! 1), state)]))
      else step_records sd its rec)"

definition step_block ::
  "(int \<rightharpoonup> 'st) \<Rightarrow> byte list \<Rightarrow> (int \<times> int \<times> 'st) list \<Rightarrow> error + (int \<times> int \<times> 'st) list" where
  "step_block sd bytes rec =
     ebind (struct_iter_unpack [Fmt_i, Fmt_i, Fmt_s 16, Fmt_b, Fmt_s 12] (py_slice bytes 132 (- 5)))
       (\<lambda>its. step_records sd its rec)"

definition read_data_step_ndc8 :: "(int \<rightharpoonup> 'st) \<Rightarrow> byte list \<Rightarrow> error + 'st step_row list" where
  "read_data_step_ndc8 sd mm =
     ebind (read_blocks (step_block sd) mm)
       (\<lambda>rec. Inr (map (\<lambda>(k, c, x, s). \<lparr>st_Cycle = c, st_Step_Index = x, st_Status = s, st_Step = int k + 1\<rparr>)
                      (enumerate 0 rec)))"

section \<open>The merger of the fixed-block tables\<close>

text \<open>
  The pandas operations of the new-format path, on columns as lists in row order. A missing
  value (NaN) is \<open>None\<close>.

  \<open>left.merge(right, how='left', on=key)\<close> keeps the order of the left rows and pairs each
  with every right row of the same key, in the order of the right table, or with nothing.
\<close>

definition merge_left :: "('l \<Rightarrow> 'k) \<Rightarrow> ('r \<Rightarrow> 'k) \<Rightarrow> 'l list \<Rightarrow> 'r list \<Rightarrow> ('l \<times> 'r option) list" where
  "merge_left kl kr left right =
     concat (map (\<lambda>l. case filter (\<lambda>r. kr r = kl l) right of
                         [] \<Rightarrow> [(l, None)]
                       | ms \<Rightarrow> map (\<lambda>m. (l, Some m)) ms) left)"

text \<open>\<open>ffill\<close>: a missing value takes the last value before it, if there is one.\<close>

fun ffill_from :: "'a option \<Rightarrow> 'a option list \<Rightarrow> 'a option list" where
  "ffill_from prev [] = []"
| "ffill_from prev (Some v # xs) = Some v # ffill_from (Some v) xs"
| "ffill_from prev (None # xs) = prev # ffill_from prev xs"

definition ffill :: "'a option list \<Rightarrow> 'a option list" where
  "ffill xs = ffill_from None xs"

text \<open>
  \<open>interpolate(method='linear')\<close> treats the rows as equally spaced and fills forward only:
  missing values before the first known one stay missing, a gap between two known values
  is filled on the straight line between them, and the missing values after the last
  known one take that value. \<open>fill_gap prev d xs\<close> fills \<open>xs\<close>, whose head lies \<open>d\<close> rows
  after the last known value \<open>prev\<close>; \<open>next_valid xs\<close> is the distance to and the value of the
  next known value.
\<close>

fun next_valid :: "'a option list \<Rightarrow> (nat \<times> 'a) option" where
  "next_valid [] = None"
| "next_valid (Some v # xs) = Some (0, v)"
| "next_valid (None # xs) = map_option (\<lambda>(k, v). (Suc k, v)) (next_valid xs)"

fun fill_gap :: "rat \<Rightarrow> nat \<Rightarrow> rat option list \<Rightarrow> rat option list" where
  "fill_gap prev d [] = []"
| "fill_gap prev d (Some v # xs) = Some v # fill_gap v 1 xs"
| "fill_gap prev d (None # xs) =
     (case next_valid xs of
        None \<Rightarrow> Some prev
      | Some (k, v) \<Rightarrow> Some (prev + (v - prev) * of_nat d / of_nat (d + k + 1)))
     # fill_gap prev (d + 1) xs"

fun interpolate :: "rat option list \<Rightarrow> rat option list" where
  "interpolate [] = []"
| "interpolate (None # xs) = None # interpolate xs"
| "interpolate (Some v # xs) = Some v # fill_gap v 1 xs"

text \<open>
  \<open>astype(int)\<close> on a float column raises \<open>ValueError\<close> when a value is missing and rounds
  towards zero otherwise.
\<close>

definition trunc :: "rat \<Rightarrow> int" where
  "trunc x = (if 0 \<le> x then \<lfloor>x\<rfloor> else \<lceil>x\<rceil>)"

definition astype_int :: "rat option list \<Rightarrow> error + int list" where
  "astype_int xs = (if list_all (\<lambda>x. x \<noteq> None) xs then Inr (map (\<lambda>x. trunc (the x)) xs) else Inl ValueError)"

text \<open>\<open>Series.map(f)\<close> with an \<open>f\<close> that can raise: the first exception ends the map.\<close>

fun map_err :: "('a \<Rightarrow> error + 'b) \<Rightarrow> 'a list \<Rightarrow> error + 'b list" where
  "map_err f [] = Inr []"
| "map_err f (x # xs) =
     (case f x of Inl e \<Rightarrow> Inl e
      | Inr y \<Rightarrow> (case map_err f xs of Inl e \<Rightarrow> Inl e | Inr ys \<Rightarrow> Inr (y # ys)))"

text \<open>\<open>Series.iat[-1]\<close> raises \<open>IndexError\<close> on an empty column.\<close>

definition iat_last :: "'a list \<Rightarrow> error + 'a" where
  "iat_last xs = (if xs = [] then Inl IndexError else Inr (last xs))"

record ('f, 'dt, 'st) merged_row =
  m_Voltage :: 'f
  m_Current :: 'f
  m_Index :: int
  m_Time :: "rat option"
  m_Timestamp :: 'dt
  m_Step :: "int option"
  m_Cycle :: "int option"
  m_Step_Index :: "int option"
  m_Status :: "'st option"

text \<open>
  Lines 52 to 59 of \<open>read_ndax\<close>: the truncation of the main samples, the join with the
  run-info table and the filling of its three columns. \<open>datetime.fromtimestamp\<close> depends on
  the local time zone and is the parameter \<open>fromtimestamp\<close>. The result pairs every row
  of the truncated and joined table with its Step, Time and Timestamp.
\<close>

definition merge_runInfo ::
  "(int \<Rightarrow> error + 'dt) \<Rightarrow> 'f sample_row list \<Rightarrow> runInfo_row list
     \<Rightarrow> error + ('f sample_row \<times> int option \<times> rat option \<times> 'dt) list" where
  "merge_runInfo fromtimestamp data_df runInfo_df =
     ebind (iat_last (map ri_Index runInfo_df)) (\<lambda>last_index.
       let data_df = filter (\<lambda>r. s_Index r \<le> last_index) data_df;
           joined = merge_left s_Index ri_Index data_df runInfo_df;
           steps = ffill (map (\<lambda>(l, r). map_option ri_Step r) joined);
           times = interpolate (map (\<lambda>(l, r). map_option ri_Time r) joined)
       in ebind (astype_int (interpolate (map (\<lambda>(l, r). map_option (\<lambda>x. of_int (ri_Timestamp x)) r) joined)))
            (\<lambda>secs. ebind (map_err fromtimestamp secs)
            (\<lambda>stamps. Inr (zip (map fst joined) (zip steps (zip times stamps))))))"

text \<open>Line 63: the join with the step summaries on Step; a missing Step matches no row.\<close>

definition merge_step ::
  "('f sample_row \<times> int option \<times> rat option \<times> 'dt) list \<Rightarrow> 'st step_row list
     \<Rightarrow> ('f, 'dt, 'st) merged_row list" where
  "merge_step data_df step_df =
     map (\<lambda>((l, step, time, stamp), r).
            \<lparr>m_Voltage = s_Voltage l, m_Current = s_Current l, m_Index = s_Index l,
             m_Time = time, m_Timestamp = stamp, m_Step = step,
             m_Cycle = map_option st_Cycle r, m_Step_Index = map_option st_Step_Index r,
             m_Status = map_option st_Status r\<rparr>)
         (merge_left (\<lambda>(l, step, time, stamp). step) (\<lambda>r. Some (st_Step r)) data_df step_df)"

section \<open>The reader\<close>

text \<open>
  The archive is the list of its member names with their bytes; \<open>zf.extract\<close> raises
  \<open>KeyError\<close> for a name that is not in it and takes the last member of a name.
\<close>

type_synonym zipfile = "(string \<times> byte list) list"

definition zf_extract :: "zipfile \<Rightarrow> string \<Rightarrow> error + byte list" where
  "zf_extract zf name = (case map_of (rev zf) name of None \<Rightarrow> Inl KeyError | Some b \<Rightarrow> Inr b)"

text \<open>\<open>re.search(".*_([0-9]+)[.]ndc", f)\<close>: an underscore, one or more digits, then \<open>.ndc\<close>.\<close>

definition is_digit :: "char \<Rightarrow> bool" where
  "is_digit c = (c \<in> set ''0123456789'')"

definition is_aux_name :: "string \<Rightarrow> bool" where
  "is_aux_name f =
     list_ex (\<lambda>k. f ! k = CHR ''_'' \<and> takeWhile is_digit (drop (Suc k) f) \<noteq> [] \<and>
                  take 4 (dropWhile is_digit (drop (Suc k) f)) = ''.ndc'')
       [0 ..< length f]"

text \<open>
  The loop over \<open>zf.namelist()\<close> of the legacy path extracts every member whose name
  matches and collects the second table of its \<open>read_ndc\<close>; the first exception ends it
  and a scan that never returns is \<open>None\<close>.
\<close>

fun read_aux_files ::
  "(int \<rightharpoonup> rat) \<Rightarrow> (int \<rightharpoonup> 'st) \<Rightarrow> ('st main_row \<Rightarrow> 'st main_row) \<Rightarrow> zipfile \<Rightarrow> string list
     \<Rightarrow> (error + aux_table list) option" where
  "read_aux_files md sd cast zf [] = Some (Inr [])"
| "read_aux_files md sd cast zf (f # names) =
     (if is_aux_name f
      then (case zf_extract zf f of
              Inl e \<Rightarrow> Some (Inl e)
            | Inr aux_file \<Rightarrow>
                (case read_ndc md sd cast aux_file of
                   None \<Rightarrow> None
                 | Some (Inl e) \<Rightarrow> Some (Inl e)
                 | Some (Inr da) \<Rightarrow>
                     (case read_aux_files md sd cast zf names of
                        None \<Rightarrow> None
                      | Some (Inl e) \<Rightarrow> Some (Inl e)
                      | Some (Inr auxs) \<Rightarrow> Some (Inr (snd da # auxs)))))
      else read_aux_files md sd cast zf names)"

text \<open>
  What \<open>read_ndax\<close> assembles. On the legacy path the model stops at the operands of the
  pivot: the main table of \<open>data.ndc\<close> and the auxiliary tables of the numbered files, in
  the order of the archive. On the fixed-block path it is the merged table.
\<close>

datatype ('f, 'dt, 'st) ndax_result =
    Legacy "'st main_row list" "aux_table list"
  | FixedBlock "('f, 'dt, 'st) merged_row list"

definition legacy_path ::
  "(int \<rightharpoonup> rat) \<Rightarrow> (int \<rightharpoonup> 'st) \<Rightarrow> ('st main_row \<Rightarrow> 'st main_row) \<Rightarrow> zipfile \<Rightarrow> byte list
     \<Rightarrow> (error + ('f, 'dt, 'st) ndax_result) option" where
  "legacy_path md sd cast zf data_file =
     (case read_ndc md sd cast data_file of
        None \<Rightarrow> None
      | Some (Inl e) \<Rightarrow> Some (Inl e)
      | Some (Inr da) \<Rightarrow>
          (case read_aux_files md sd cast zf (map fst zf) of
             None \<Rightarrow> None
           | Some (Inl e) \<Rightarrow> Some (Inl e)
           | Some (Inr auxs) \<Rightarrow> Some (Inr (Legacy (fst da) auxs))))"

definition fixed_block_path ::
  "(int \<rightharpoonup> 'st) \<Rightarrow> (32 word \<Rightarrow> 'f) \<Rightarrow> ('f \<Rightarrow> 'f) \<Rightarrow> (int \<Rightarrow> error + 'dt) \<Rightarrow> zipfile \<Rightarrow> byte list
     \<Rightarrow> error + ('f, 'dt, 'st) ndax_result" where
  "fixed_block_path sd f32 div10000 fromtimestamp zf data_file =
     ebind (read_ndc_8 f32 div10000 data_file) (\<lambda>data_df.
     ebind (zf_extract zf ''data_runInfo.ndc'') (\<lambda>runInfo_file.
     ebind (read_data_runInfo_ndc8 runInfo_file) (\<lambda>runInfo_df.
     ebind (merge_runInfo fromtimestamp data_df runInfo_df) (\<lambda>data_df.
     ebind (zf_extract zf ''data_step.ndc'') (\<lambda>step_file.
     ebind (read_data_step_ndc8 sd step_file) (\<lambda>step_df.
     Inr (FixedBlock (merge_step data_df step_df))))))))"

text \<open>
  \<open>int(server[14])\<close>: the subscript raises \<open>IndexError\<close> on a string of fewer than 15
  characters, and \<open>int\<close> raises \<open>ValueError\<close> on a character that is no decimal digit. The
  digit value of a character is the parameter \<open>py_int\<close> (\<open>None\<close> where \<open>int\<close> raises).
\<close>

definition revision :: "('c \<Rightarrow> int option) \<Rightarrow> 'c list \<Rightarrow> error + int" where
  "revision py_int server =
     (if length server \<le> 14 then Inl IndexError
      else case py_int (server ! 14) of None \<Rightarrow> Inl ValueError | Some d \<Rightarrow> Inr d)"

definition read_ndax ::
  "('c \<Rightarrow> int option) \<Rightarrow> (int \<rightharpoonup> rat) \<Rightarrow> (int \<rightharpoonup> 'st) \<Rightarrow> ('st main_row \<Rightarrow> 'st main_row)
     \<Rightarrow> (32 word \<Rightarrow> 'f) \<Rightarrow> ('f \<Rightarrow> 'f) \<Rightarrow> (int \<Rightarrow> error + 'dt) \<Rightarrow> 'c list \<Rightarrow> zipfile
     \<Rightarrow> (error + ('f, 'dt, 'st) ndax_result) option" where
  "read_ndax py_int md sd cast f32 div10000 fromtimestamp server zf =
     (case revision py_int server of
        Inl e \<Rightarrow> Some (Inl e)
      | Inr revn \<Rightarrow>
          if revn > 8 then Some (Inl NotImplementedError)
          else (case zf_extract zf ''data.ndc'' of
                  Inl e \<Rightarrow> Some (Inl e)
                | Inr data_file \<Rightarrow>
                    if revn > 7
                    then Some (fixed_block_path sd f32 div10000 fromtimestamp zf data_file)
                    else legacy_path md sd cast zf data_file))"

section \<open>The byte layout as the format table states it\<close>

text \<open>
  The unsigned and the two's-complement little-endian integer of \<open>w\<close> bytes at byte
  offset \<open>off\<close> of a slice, read byte by byte.
\<close>

definition uint_at :: "byte list \<Rightarrow> nat \<Rightarrow> nat \<Rightarrow> int" where
  "uint_at bs off w = (\<Sum>k<w. int (unat (bs ! (off + k))) * 256 ^ k)"

definition sint_at :: "byte list \<Rightarrow> nat \<Rightarrow> nat \<Rightarrow> int" where
  "sint_at bs off w =
     (if uint_at bs off w < 2 ^ (8 * w - 1) then uint_at bs off w
      else uint_at bs off w - 2 ^ (8 * w))"

text \<open>
  A synthetic legacy main record: the raw field values, and the slice that holds them
  at the offsets of the layout table, every integer in little-endian two's complement and
  the bytes the decoder does not read set to zero.
\<close>

fun le_bytes :: "nat \<Rightarrow> int \<Rightarrow> byte list" where
  "le_bytes 0 x = []"
| "le_bytes (Suc n) x = word_of_int x # le_bytes n (x div 256)"

record main_fields =
  f_index :: int
  f_cycle :: int
  f_step :: int
  f_status :: int
  f_time :: int
  f_voltage :: int
  f_current :: int
  f_charge_capacity :: int
  f_discharge_capacity :: int
  f_charge_energy :: int
  f_discharge_energy :: int
  f_year :: int
  f_month :: int
  f_day :: int
  f_hour :: int
  f_minute :: int
  f_second :: int
  f_range :: int

definition main_slice :: "main_fields \<Rightarrow> byte list" where
  "main_slice f =
     [0x55] @ replicate 7 0 @ le_bytes 4 (f_index f) @ le_bytes 4 (f_cycle f) @
     le_bytes 1 (f_step f) @ le_bytes 1 (f_status f) @ replicate 5 0 @
     le_bytes 8 (f_time f) @ le_bytes 4 (f_voltage f) @ le_bytes 4 (f_current f) @
     replicate 4 0 @
     le_bytes 8 (f_charge_capacity f) @ le_bytes 8 (f_discharge_capacity f) @
     le_bytes 8 (f_charge_energy f) @ le_bytes 8 (f_discharge_energy f) @
     le_bytes 2 (f_year f) @ le_bytes 1 (f_month f) @ le_bytes 1 (f_day f) @
     le_bytes 1 (f_hour f) @ le_bytes 1 (f_minute f) @ le_bytes 1 (f_second f) @
     le_bytes 4 (f_range f) @ replicate 8 0"

text \<open>The ranges of the raw values: what the unsigned and signed fields can hold.\<close>

definition fields_in_range :: "main_fields \<Rightarrow> bool" where
  "fields_in_range f =
     (0 \<le> f_index f \<and> f_index f < 2 ^ 32 \<and> 0 \<le> f_cycle f \<and> f_cycle f < 2 ^ 32 \<and>
      0 \<le> f_step f \<and> f_step f < 2 ^ 8 \<and> 0 \<le> f_status f \<and> f_status f < 2 ^ 8 \<and>
      0 \<le> f_time f \<and> f_time f < 2 ^ 64 \<and>
      - (2 ^ 31) \<le> f_voltage f \<and> f_voltage f < 2 ^ 31 \<and>
      - (2 ^ 31) \<le> f_current f \<and> f_current f < 2 ^ 31 \<and>
      - (2 ^ 63) \<le> f_charge_capacity f \<and> f_charge_capacity f < 2 ^ 63 \<and>
      - (2 ^ 63) \<le> f_discharge_capacity f \<and> f_discharge_capacity f < 2 ^ 63 \<and>
      - (2 ^ 63) \<le> f_charge_energy f \<and> f_charge_energy f < 2 ^ 63 \<and>
      - (2 ^ 63) \<le> f_discharge_energy f \<and> f_discharge_energy f < 2 ^ 63 \<and>
      - (2 ^ 31) \<le> f_range f \<and> f_range f < 2 ^ 31)"

text \<open>
  The values a format yields from offset \<open>off\<close> of a buffer on, field after field.
\<close>

fun fields_at :: "fmt list \<Rightarrow> nat \<Rightarrow> byte list \<Rightarrow> pyval list" where
  "fields_at [] off bs = []"
| "fields_at (c # cs) off bs =
     decode_field c (take (field_size c) (drop off bs)) # fields_at cs (off + field_size c) bs"

text \<open>
  The geometry of a fixed-block file of \<open>n\<close> bytes: the number of whole 4096-byte blocks
  after the header, and the number of payload bytes of the shorter block that may follow
  them, when the payload ends \<open>t\<close> bytes before the end of the block (0 when there is no
  such block or when it is too short to hold any payload).
\<close>

definition full_blocks :: "nat \<Rightarrow> nat" where
  "full_blocks n = (n - 4096) div 4096"

definition tail_payload :: "nat \<Rightarrow> nat \<Rightarrow> nat" where
  "tail_payload t n = (n - 4096) mod 4096 - (132 + t)"

text \<open>
  The blocks of a fixed-block file as the spec words them: the 4096-byte header is
  skipped and the remainder is cut into 4096-byte blocks, the last of which may be
  shorter. The whole sub-records of a block \<open>b\<close>, for sub-records of \<open>sz\<close> bytes and a
  payload that runs from byte 132 to \<open>t\<close> bytes before the end of the block: sub-record
  \<open>j\<close> is the bytes from \<open>132 + sz * j\<close> up to \<open>132 + sz * (j + 1)\<close>, for every \<open>j\<close> for which
  these bytes lie within the payload. \<open>all_sub_records\<close> lists them in block order.
\<close>

definition blocks_of :: "byte list \<Rightarrow> byte list list" where
  "blocks_of mm =
     map (\<lambda>k. take 4096 (drop (4096 + 4096 * k) mm)) [0 ..< (length mm - 4096 + 4095) div 4096]"

definition sub_records :: "nat \<Rightarrow> nat \<Rightarrow> byte list \<Rightarrow> byte list list" where
  "sub_records sz t b =
     map (\<lambda>j. take sz (drop (132 + sz * j) b)) [0 ..< (length b - (132 + t)) div sz]"

definition all_sub_records :: "nat \<Rightarrow> nat \<Rightarrow> byte list \<Rightarrow> byte list list" where
  "all_sub_records sz t mm = concat (map (sub_records sz t) (blocks_of mm))"

text \<open>
  The sub-records that are no padding: a run-info sub-record holds its index in the four
  bytes from offset 41 and a step sub-record its step index in the four bytes from offset
  4, and a sub-record whose value there is zero is dropped.
\<close>

definition kept_runInfo :: "byte list \<Rightarrow> byte list list" where
  "kept_runInfo mm = filter (\<lambda>s. sint_at s 41 4 \<noteq> 0) (all_sub_records 47 63 mm)"

definition kept_step :: "byte list \<Rightarrow> byte list list" where
  "kept_step mm = filter (\<lambda>s. sint_at s 4 4 \<noteq> 0) (all_sub_records 37 5 mm)"

section \<open>Filling as the spec words it\<close>







section \<open>Example inputs\<close>

text \<open>
  A legacy main record with Index 1, cycle counter 0, step 1, status code 1, 1000 ms,
  raw voltage 36000, raw current 500, raw capacities and energies 3600, 7200, 10800 and
  14400, the date 2023-05-17 12:30:45 and range code 0, with a multiplier table that maps
  range 0 to 1 and a state table that maps status 1 to \<open>CC_Chg\<close>.
\<close>

definition ex_slice :: "byte list" where
  "ex_slice =
     [0x55, 0, 0, 0, 0, 0, 0, 0] @ [1, 0, 0, 0] @ [0, 0, 0, 0] @ [1] @ [1] @ [0, 0, 0, 0, 0] @
     [0xE8, 0x03, 0, 0, 0, 0, 0, 0] @ [0xA0, 0x8C, 0, 0] @ [0xF4, 0x01, 0, 0] @ [0, 0, 0, 0] @
     [0x10, 0x0E, 0, 0, 0, 0, 0, 0] @ [0x20, 0x1C, 0, 0, 0, 0, 0, 0] @
     [0x30, 0x2A, 0, 0, 0, 0, 0, 0] @ [0x40, 0x38, 0, 0, 0, 0, 0, 0] @
     [0xE7, 0x07, 5, 17, 12, 30, 45] @ [0, 0, 0, 0] @ [0, 0, 0, 0, 0, 0, 0, 0]"

text \<open>
  Two fixed-block buffers of zero bytes: after the header, \<open>ex_tail\<close> has a block of 144
  bytes and \<open>ex_short\<close> a block of 137 bytes.
\<close>

definition ex_tail :: "byte list" where
  "ex_tail = replicate 4096 0 @ replicate 144 0"

definition ex_short :: "byte list" where
  "ex_short = replicate 4096 0 @ replicate 137 0"

text \<open>
  A run-info buffer with one block of six sub-records, whose raw steps are 5, 5, 5, 7, 7
  and 9 and whose indices are 1 to 6; \<open>ex_runInfo_rec s i\<close> is the sub-record with raw step
  \<open>s\<close> and index \<open>i\<close>, its other fields zero.
\<close>

definition ex_runInfo_rec :: "byte \<Rightarrow> byte \<Rightarrow> byte list" where
  "ex_runInfo_rec s i = replicate 37 0 @ [s, 0, 0, 0] @ [i, 0, 0, 0] @ [0, 0]"

definition ex_runInfo :: "byte list" where
  "ex_runInfo =
     replicate 4096 0 @ replicate 132 0 @
     ex_runInfo_rec 5 1 @ ex_runInfo_rec 5 2 @ ex_runInfo_rec 5 3 @
     ex_runInfo_rec 7 4 @ ex_runInfo_rec 7 5 @ ex_runInfo_rec 9 6 @ replicate 63 0"

text \<open>
  A step buffer with one block of a single sub-record: cycle 0, step index 1 and the
  status code 7, which \<open>ex_sd\<close> does not map.
\<close>

definition ex_step_rec :: "byte list" where
  "ex_step_rec = [0, 0, 0, 0] @ [1, 0, 0, 0] @ replicate 16 0 @ [7] @ replicate 12 0"

definition ex_step :: "byte list" where
  "ex_step = replicate 4096 0 @ replicate 132 0 @ ex_step_rec @ replicate 5 0"

text \<open>
  A step buffer with one shorter block of two sub-records: the first has cycle 0, step
  index 1 and the status code 1, which \<open>ex_sd\<close> maps, and the second is padding.
\<close>

definition ex_step_ok_rec :: "byte list" where
  "ex_step_ok_rec = [0, 0, 0, 0] @ [1, 0, 0, 0] @ replicate 16 0 @ [1] @ replicate 12 0"

definition ex_step_ok :: "byte list" where
  "ex_step_ok = replicate 4096 0 @ replicate 132 0 @ ex_step_ok_rec @ replicate 37 0 @ replicate 5 0"

text \<open>
  Server version strings of the revisions 7, 8 and 9, whose character 14 is the revision,
  and the digit value of an ASCII character.
\<close>

definition ex_py_int :: "char \<Rightarrow> int option" where
  "ex_py_int = map_of [(CHR ''0'', 0), (CHR ''1'', 1), (CHR ''2'', 2), (CHR ''3'', 3), (CHR ''4'', 4),
                       (CHR ''5'', 5), (CHR ''6'', 6), (CHR ''7'', 7), (CHR ''8'', 8), (CHR ''9'', 9)]"

definition ex_server7 :: string where
  "ex_server7 = ''BTSServer(R3)-7.6.0.478''"

definition ex_server8 :: string where
  "ex_server8 = ''BTSServer(R3)-8.0.0.478''"

definition ex_server9 :: string where
  "ex_server9 = ''BTSServer(R3)-9.0.0.478''"






definition ex_md :: "int \<rightharpoonup> rat" where
  "ex_md = [0 \<mapsto> 1]"

definition ex_sd :: "int \<rightharpoonup> string" where
  "ex_sd = [1 \<mapsto> ''CC_Chg'']"

text \<open>
  Legacy buffers. After the 517 bytes before the first record, \<open>ex_legacy\<close> holds the
  example main record once and \<open>ex_legacy_twice\<close> holds it twice, so that its scan yields
  the Index 1 twice. \<open>ex_aux_file\<close> holds one auxiliary record of the variant \<open>0x65\<close>:
  channel 2, Index 1, raw voltage 36000 and raw temperature 250.
\<close>

definition ex_legacy :: "byte list" where
  "ex_legacy = replicate 517 0 @ ex_slice"

definition ex_legacy_twice :: "byte list" where
  "ex_legacy_twice = replicate 517 0 @ ex_slice @ ex_slice"

definition ex_aux65 :: "byte list" where
  "ex_aux65 =
     [0x65, 0, 0, 2, 0, 0, 0, 0] @ [1, 0, 0, 0] @ replicate 19 0 @ [0xA0, 0x8C, 0, 0] @
     replicate 6 0 @ [0xFA, 0] @ replicate 51 0"

definition ex_aux_file :: "byte list" where
  "ex_aux_file = replicate 517 0 @ ex_aux65"

definition ex_row :: "string main_row" where
  "ex_row =
     \<lparr>Index = 1, Cycle = 1, Step = 1, Status = ''CC_Chg'', Time = 1, Voltage = 36 / 10,
      Current = 500, Charge_capacity = 1, Discharge_capacity = 2, Charge_energy = 3,
      Discharge_energy = 4,
      Timestamp = \<lparr>year = 2023, month = 5, day = 17, hour = 12, minute = 30, second = 45\<rparr>\<rparr>"



section \<open>Little-endian reads\<close>

lemma le_nat_sum: "le_nat bs = (\<Sum>i<length bs. unat (bs ! i) * 256 ^ i)"
proof (induction bs)
  case Nil show ?case by simp
next
  case (Cons b bs)
  show ?case
    apply (simp add: Cons sum.lessThan_Suc_shift sum_distrib_left del: sum.lessThan_Suc)
    apply (simp add: mult_ac)
    done
qed

lemma le_nat_bound: "le_nat bs < 256 ^ length bs"
proof (induction bs)
  case Nil show ?case by simp
next
  case (Cons b bs)
  have "unat b < 256" using unsigned_less[of b] by simp
  with Cons show ?case by simp
qed

lemma le_nat_at:
  assumes "off + w \<le> length bs"
  shows "int (le_nat (take w (drop off bs))) = uint_at bs off w"
proof -
  have l: "length (take w (drop off bs)) = w" using assms by simp
  have "int (le_nat (take w (drop off bs))) = (\<Sum>i<w. int (unat (take w (drop off bs) ! i)) * 256 ^ i)"
    unfolding le_nat_sum l by simp
  also have "\<dots> = (\<Sum>i<w. int (unat (bs ! (off + i))) * 256 ^ i)"
    using assms by (intro sum.cong) auto
  finally show ?thesis by (simp add: uint_at_def)
qed

lemma le_int_at:
  assumes "off + w \<le> length bs" "0 < w"
  shows "le_int (take w (drop off bs)) = sint_at bs off w"
proof -
  have l: "length (take w (drop off bs)) = w" using assms by simp
  have u: "int (le_nat (take w (drop off bs))) = uint_at bs off w" using assms(1) by (rule le_nat_at)
  have p: "(2::int) ^ (8 * w) = 2 * 2 ^ (8 * w - 1)"
    using assms(2) by (metis power_eq_if mult_is_0 neq0_conv zero_neq_numeral)
  have "(2 ^ (8 * w) \<le> 2 * le_nat (take w (drop off bs))) = (\<not> uint_at bs off w < 2 ^ (8 * w - 1))"
  proof -
    have "(2 ^ (8 * w) \<le> 2 * le_nat (take w (drop off bs))) = ((2::int) ^ (8 * w) \<le> 2 * int (le_nat (take w (drop off bs))))"
      by (metis (mono_tags) of_nat_le_iff of_nat_mult of_nat_numeral of_nat_power)
    also have "\<dots> = (\<not> uint_at bs off w < 2 ^ (8 * w - 1))" unfolding u p by auto
    finally show ?thesis .
  qed
  then show ?thesis unfolding le_int_def sint_at_def l u by auto
qed

lemma uint_at_unfold:
  "uint_at bs off 1 = uint (bs ! off)"
  "uint_at bs off (Suc 0) = uint (bs ! off)"
  "uint_at bs off 2 = uint (bs ! off) + uint (bs ! (off + 1)) * 256"
  "uint_at bs off 4 = uint (bs ! off) + uint (bs ! (off + 1)) * 256 + uint (bs ! (off + 2)) * 65536
       + uint (bs ! (off + 3)) * 16777216"
  "uint_at bs off 8 = uint (bs ! off) + uint (bs ! (off + 1)) * 256 + uint (bs ! (off + 2)) * 65536
       + uint (bs ! (off + 3)) * 16777216 + uint (bs ! (off + 4)) * 4294967296
       + uint (bs ! (off + 5)) * 1099511627776 + uint (bs ! (off + 6)) * 281474976710656
       + uint (bs ! (off + 7)) * 72057594037927936"
  by (simp_all add: uint_at_def eval_nat_numeral)

section \<open>Slices and struct.unpack\<close>

lemma py_slice_pos:
  "0 \<le> i \<Longrightarrow> i \<le> j \<Longrightarrow> j \<le> int (length xs) \<Longrightarrow>
   py_slice xs i j = take (nat (j - i)) (drop (nat i) xs)"
  by (simp add: py_slice_def Let_def min_def)

lemma py_slice_head: "xs \<noteq> [] \<Longrightarrow> py_slice xs 0 1 = [xs ! 0]"
  by (cases xs) (simp_all add: py_slice_def Let_def min_def)

lemma py_slice_head_Nil: "py_slice [] 0 1 = []"
  by (simp add: py_slice_def)

lemma unpack_fields_at:
  "unpack_fields fs (take (calcsize fs) (drop off bs)) = fields_at fs off bs"
proof (induction fs arbitrary: off)
  case Nil show ?case by simp
next
  case (Cons c cs)
  have "unpack_fields cs (drop (field_size c) (take (calcsize (c # cs)) (drop off bs)))
      = unpack_fields cs (take (calcsize cs) (drop (off + field_size c) bs))"
    by (simp add: calcsize_def drop_take add.commute)
  then show ?case using Cons[of "off + field_size c"] by (simp add: calcsize_def min_def)
qed

lemma struct_unpack_at:
  "calcsize fs = n \<Longrightarrow> off + n \<le> length bs \<Longrightarrow>
   struct_unpack fs (take n (drop off bs)) = Inr (fields_at fs off bs)"
  using unpack_fields_at[of fs off bs] by (simp add: struct_unpack_def)

section \<open>The legacy record decoder\<close>

lemma slices94:
  assumes "length bytes = 94"
  shows "py_slice bytes 8 16 = take 8 (drop 8 bytes)"
    "py_slice bytes 16 17 = take 1 (drop 16 bytes)"
    "py_slice bytes 17 18 = take 1 (drop 17 bytes)"
    "py_slice bytes 23 31 = take 8 (drop 23 bytes)"
    "py_slice bytes 31 39 = take 8 (drop 31 bytes)"
    "py_slice bytes 43 59 = take 16 (drop 43 bytes)"
    "py_slice bytes 59 75 = take 16 (drop 59 bytes)"
    "py_slice bytes 75 82 = take 7 (drop 75 bytes)"
    "py_slice bytes 82 86 = take 4 (drop 82 bytes)"
  using assms by (simp_all add: py_slice_pos)

text \<open>What the decoder returns on a slice of 94 bytes, in terms of the byte layout.\<close>

lemma bytes_to_list_ndc_94:
  assumes len: "length bytes = 94"
  shows "bytes_to_list_ndc md sd bytes =
     (case md (sint_at bytes 82 4) of
        None \<Rightarrow> Inl KeyError
      | Some mult \<Rightarrow>
         (case sd (uint_at bytes 17 1) of
            None \<Rightarrow> Inl KeyError
          | Some state \<Rightarrow>
             if valid_date (uint_at bytes 75 2) (uint_at bytes 77 1) (uint_at bytes 78 1)
                  (uint_at bytes 79 1) (uint_at bytes 80 1) (uint_at bytes 81 1)
             then Inr \<lparr>Index = uint_at bytes 8 4,
                  Cycle = uint_at bytes 12 4 + 1,
                  Step = uint_at bytes 16 1,
                  Status = state,
                  Time = of_int (uint_at bytes 23 8) / 1000,
                  Voltage = of_int (sint_at bytes 31 4) / 10000,
                  Current = of_int (sint_at bytes 35 4) * mult,
                  Charge_capacity = of_int (sint_at bytes 43 8) * mult / 3600,
                  Discharge_capacity = of_int (sint_at bytes 51 8) * mult / 3600,
                  Charge_energy = of_int (sint_at bytes 59 8) * mult / 3600,
                  Discharge_energy = of_int (sint_at bytes 67 8) * mult / 3600,
                  Timestamp = \<lparr>year = uint_at bytes 75 2, month = uint_at bytes 77 1,
                     day = uint_at bytes 78 1, hour = uint_at bytes 79 1,
                     minute = uint_at bytes 80 1, second = uint_at bytes 81 1\<rparr>\<rparr>
             else Inl ValueError))"
proof -
  have U: "\<And>off w. off + w \<le> 94 \<Longrightarrow> int (le_nat (take w (drop off bytes))) = uint_at bytes off w"
    using len by (simp add: le_nat_at)
  have S: "\<And>off w. off + w \<le> 94 \<Longrightarrow> 0 < w \<Longrightarrow> le_int (take w (drop off bytes)) = sint_at bytes off w"
    using len by (simp add: le_int_at)
  show ?thesis
    unfolding bytes_to_list_ndc_def slices94[OF len]
    using len
    by (simp add: struct_unpack_at calcsize_def ebind_def dict_get_def mk_datetime_def U S
        split: option.split)
qed

text \<open>
  C1. A 94-byte legacy main-record slice with type byte 0x55, a range code in the
  multiplier table, a status code in the state table and valid packed calendar fields
  decodes to a record, which the scanner appends to its main output. The fields of the
  record are the little-endian integers at the offsets of the layout table with its scale
  factors: index u32 at 8, step u8 at 16, the state of status u8 at 17, time u64 at 23
  over 1000, voltage i32 at 31 over 10000, current i32 at 35 times the multiplier, the
  capacities and energies i64 at 43, 51, 59 and 67 times the multiplier over 3600, and the
  timestamp made of the six packed integers at 75 to 81.
\<close>

theorem legacy_main_record_decodes:
  assumes "length bytes = 94" and "bytes ! 0 = 0x55"
    and "md (sint_at bytes 82 4) = Some mult"
    and "sd (uint_at bytes 17 1) = Some state"
    and "valid_date (uint_at bytes 75 2) (uint_at bytes 77 1) (uint_at bytes 78 1)
           (uint_at bytes 79 1) (uint_at bytes 80 1) (uint_at bytes 81 1)"
  shows "\<exists>r. bytes_to_list_ndc md sd bytes = Inr r \<and>
             ndc_record md sd bytes output aux = Inr (output @ [r], aux) \<and>
             Index r = uint_at bytes 8 4 \<and>
             Step r = uint_at bytes 16 1 \<and>
             Status r = state \<and>
             Time r = of_int (uint_at bytes 23 8) / 1000 \<and>
             Voltage r = of_int (sint_at bytes 31 4) / 10000 \<and>
             Current r = of_int (sint_at bytes 35 4) * mult \<and>
             Charge_capacity r = of_int (sint_at bytes 43 8) * mult / 3600 \<and>
             Discharge_capacity r = of_int (sint_at bytes 51 8) * mult / 3600 \<and>
             Charge_energy r = of_int (sint_at bytes 59 8) * mult / 3600 \<and>
             Discharge_energy r = of_int (sint_at bytes 67 8) * mult / 3600 \<and>
             Timestamp r = \<lparr>year = uint_at bytes 75 2, month = uint_at bytes 77 1,
                day = uint_at bytes 78 1, hour = uint_at bytes 79 1,
                minute = uint_at bytes 80 1, second = uint_at bytes 81 1\<rparr>"
proof -
  have ne: "bytes \<noteq> []" using assms(1) by auto
  have hd: "py_slice bytes 0 1 = [0x55]" using py_slice_head[OF ne] assms(2) by simp
  show ?thesis
    unfolding ndc_record_def hd bytes_to_list_ndc_94[OF assms(1)]
    using assms(3,4,5) by (simp add: ebind_def)
qed

lemma ex_slice_fields:
  "length ex_slice = 94" "ex_slice ! 0 = 0x55"
  "uint_at ex_slice 8 4 = 1" "uint_at ex_slice 12 4 = 0" "uint_at ex_slice 16 1 = 1"
  "uint_at ex_slice 17 1 = 1" "uint_at ex_slice 23 8 = 1000"
  "sint_at ex_slice 31 4 = 36000" "sint_at ex_slice 35 4 = 500"
  "sint_at ex_slice 43 8 = 3600" "sint_at ex_slice 51 8 = 7200"
  "sint_at ex_slice 59 8 = 10800" "sint_at ex_slice 67 8 = 14400"
  "uint_at ex_slice 75 2 = 2023" "uint_at ex_slice 77 1 = 5" "uint_at ex_slice 78 1 = 17"
  "uint_at ex_slice 79 1 = 12" "uint_at ex_slice 80 1 = 30" "uint_at ex_slice 81 1 = 45"
  "sint_at ex_slice 82 4 = 0"
  by (simp_all add: uint_at_unfold sint_at_def ex_slice_def)

theorem legacy_main_record_decodes_witness:
  "length ex_slice = 94 \<and> ex_slice ! 0 = 0x55 \<and>
   ex_md (sint_at ex_slice 82 4) = Some 1 \<and>
   ex_sd (uint_at ex_slice 17 1) = Some ''CC_Chg'' \<and>
   valid_date (uint_at ex_slice 75 2) (uint_at ex_slice 77 1) (uint_at ex_slice 78 1)
     (uint_at ex_slice 79 1) (uint_at ex_slice 80 1) (uint_at ex_slice 81 1) \<and>
   (\<exists>r. bytes_to_list_ndc ex_md ex_sd ex_slice = Inr r \<and>
        ndc_record ex_md ex_sd ex_slice [] [] = Inr ([r], []) \<and>
        Index r = 1 \<and> Step r = 1 \<and> Status r = ''CC_Chg'' \<and> Time r = 1 \<and>
        Voltage r = 36 / 10 \<and> Current r = 500 \<and>
        Charge_capacity r = 1 \<and> Discharge_capacity r = 2 \<and>
        Charge_energy r = 3 \<and> Discharge_energy r = 4 \<and>
        Timestamp r = \<lparr>year = 2023, month = 5, day = 17, hour = 12, minute = 30, second = 45\<rparr>)"
proof -
  have h3: "ex_md (sint_at ex_slice 82 4) = Some 1"
    by (simp add: ex_slice_fields ex_md_def)
  have h4: "ex_sd (uint_at ex_slice 17 1) = Some ''CC_Chg''"
    by (simp add: ex_slice_fields ex_sd_def del: One_nat_def)
  have h5: "valid_date (uint_at ex_slice 75 2) (uint_at ex_slice 77 1) (uint_at ex_slice 78 1)
     (uint_at ex_slice 79 1) (uint_at ex_slice 80 1) (uint_at ex_slice 81 1)"
    by (simp add: ex_slice_fields valid_date_def days_in_month_def del: One_nat_def)
  from legacy_main_record_decodes[where bytes = ex_slice and md = ex_md and sd = ex_sd
      and aux = "[]" and ?output = "[]", OF ex_slice_fields(1) ex_slice_fields(2) h3 h4 h5]
  show ?thesis using h3 h4 h5 by (simp add: ex_slice_fields del: One_nat_def)
qed

text \<open>
  C7. The decoded cycle of a 94-byte legacy main record is not the raw u32 at offset 12:
  the decoder adds 1 to it, as the step scanner does to its cycle field. On the example
  record the raw value is 0 and the decoded cycle is 1.
\<close>

theorem legacy_cycle_not_raw:
  "length ex_slice = 94 \<and> map_sum id Cycle (bytes_to_list_ndc ex_md ex_sd ex_slice) = Inr 1 \<and>
   uint_at ex_slice 12 4 = 0"
  by (simp add: bytes_to_list_ndc_94 ex_slice_fields ex_md_def ex_sd_def valid_date_def
      days_in_month_def del: One_nat_def)

text \<open>
  C7, amended. Whenever a 94-byte legacy main-record slice decodes, the decoded cycle is
  the raw unsigned 32-bit little-endian integer at offset 12 plus 1.
\<close>

theorem legacy_cycle_is_raw_plus_one:
  assumes "length bytes = 94" and "bytes_to_list_ndc md sd bytes = Inr r"
  shows "Cycle r = uint_at bytes 12 4 + 1"
  using assms(2) unfolding bytes_to_list_ndc_94[OF assms(1)]
  by (auto split: option.splits if_splits)

theorem legacy_cycle_is_raw_plus_one_witness:
  "length ex_slice = 94 \<and>
   (\<exists>r. bytes_to_list_ndc ex_md ex_sd ex_slice = Inr r \<and> Cycle r = uint_at ex_slice 12 4 + 1)"
proof -
  obtain r where r: "bytes_to_list_ndc ex_md ex_sd ex_slice = Inr r"
    by (simp add: bytes_to_list_ndc_94 ex_slice_fields ex_md_def ex_sd_def valid_date_def
      days_in_month_def del: One_nat_def)
  from legacy_cycle_is_raw_plus_one[OF ex_slice_fields(1) r] r ex_slice_fields(1)
  show ?thesis by blast
qed


section \<open>The block loop\<close>

lemma length_chunks: "length (chunks n xs) = length xs div n"
  by (simp add: chunks_def)

lemma payload_length:
  "length (py_slice b 132 (- 4)) = length b - 136"
  "length (py_slice b 132 (- 63)) = length b - 195"
  "length (py_slice b 132 (- 5)) = length b - 137"
  by (auto simp: py_slice_def Let_def min_def max_def)

lemma block_length:
  "length (take 4096 (drop pos mm)) = min 4096 (length mm - pos)"
  by simp

text \<open>A scan fails when the body fails on the short block at the end.\<close>

lemma scan_blocks_fail:
  assumes "\<And>b rec. (length b - c) mod sz \<noteq> 0 \<Longrightarrow> \<exists>e. body b rec = Inl e"
    and "\<And>b rec e. body b rec = Inl e \<Longrightarrow> E e"
    and "((length mm - pos) mod 4096 - c) mod sz \<noteq> 0"
  shows "\<exists>e. scan_blocks body mm pos rec = Inl e \<and> E e"
  using assms
proof (induction body mm pos rec rule: scan_blocks.induct)
  case (1 body mm pos rec)
  note bad = "1.prems"(1) and err = "1.prems"(2) and cond = "1.prems"(3)
  let ?b = "take 4096 (drop pos mm)"
  have lt: "pos < length mm" using cond by (cases "pos < length mm") auto
  show ?case
  proof (cases "body ?b rec")
    case (Inl e)
    then show ?thesis using lt err[OF Inl] by (subst scan_blocks.simps) simp
  next
    case (Inr rec')
    have full: "4096 \<le> length mm - pos"
    proof (rule ccontr)
      assume "\<not> 4096 \<le> length mm - pos"
      then have "length ?b = (length mm - pos) mod 4096" by simp
      with cond bad[of ?b rec] Inr show False by auto
    qed
    then have len: "length ?b = 4096" by simp
    have "(length mm - (pos + length ?b)) mod 4096 = (length mm - pos) mod 4096"
      using full unfolding len by (metis diff_diff_left le_mod_geq)
    with cond have "((length mm - (pos + length ?b)) mod 4096 - c) mod sz \<noteq> 0" by simp
    from "1.IH"[OF lt Inr bad err this] show ?thesis using lt Inr by (subst scan_blocks.simps) simp
  qed
qed

text \<open>A scan succeeds when the body succeeds on every block whose payload is whole.\<close>

lemma scan_blocks_ok:
  assumes "\<And>b rec. (length b - c) mod sz = 0 \<Longrightarrow> \<exists>r. body b rec = Inr r"
    and "(4096 - c) mod sz = 0"
    and "((length mm - pos) mod 4096 - c) mod sz = 0"
  shows "\<exists>r. scan_blocks body mm pos rec = Inr r"
  using assms
proof (induction body mm pos rec rule: scan_blocks.induct)
  case (1 body mm pos rec)
  note ok = "1.prems"(1) and full = "1.prems"(2) and cond = "1.prems"(3)
  let ?b = "take 4096 (drop pos mm)"
  show ?case
  proof (cases "pos < length mm")
    case False
    then show ?thesis by (subst scan_blocks.simps) simp
  next
    case lt: True
    have w: "(length ?b - c) mod sz = 0"
    proof (cases "4096 \<le> length mm - pos")
      case True then show ?thesis using full by simp
    next
      case False
      then have "length ?b = (length mm - pos) mod 4096" by simp
      then show ?thesis using cond by simp
    qed
    from ok[OF w, of rec] obtain r where r: "body ?b rec = Inr r" by blast
    have "(length mm - (pos + length ?b)) mod 4096 = (length mm - pos) mod 4096
          \<or> length mm - (pos + length ?b) = 0"
    proof (cases "4096 \<le> length mm - pos")
      case True
      then have len: "length ?b = 4096" by simp
      show ?thesis using True unfolding len
        by (metis diff_diff_left le_mod_geq)
    next
      case False then show ?thesis by simp
    qed
    then have "((length mm - (pos + length ?b)) mod 4096 - c) mod sz = 0"
      using cond by auto
    from "1.IH"[OF lt r ok full this] show ?thesis using lt r by (subst scan_blocks.simps) simp
  qed
qed

text \<open>The number of rows a scan appends, when each block appends at most its whole sub-records.\<close>

lemma scan_blocks_bound:
  assumes "\<And>b rec r. body b rec = Inr r \<Longrightarrow> length r \<le> length rec + (length b - c) div sz"
    and "scan_blocks body mm pos rec = Inr r"
  shows "length r \<le> length rec + ((4096 - c) div sz) * ((length mm - pos) div 4096)
                      + ((length mm - pos) mod 4096 - c) div sz"
  using assms
proof (induction body mm pos rec rule: scan_blocks.induct)
  case (1 body mm pos rec)
  note bnd = "1.prems"(1) and res = "1.prems"(2)
  let ?b = "take 4096 (drop pos mm)"
  show ?case
  proof (cases "pos < length mm")
    case False
    with res show ?thesis by (subst (asm) scan_blocks.simps) simp
  next
    case lt: True
    from res lt obtain r1 where r1: "body ?b rec = Inr r1"
      and rest: "scan_blocks body mm (pos + length ?b) r1 = Inr r"
      by (subst (asm) scan_blocks.simps) (auto split: sum.splits)
    note IH = "1.IH"[OF lt r1 bnd rest]
    note b1 = bnd[OF r1]
    show ?thesis
    proof (cases "4096 \<le> length mm - pos")
      case True
      then have len: "length ?b = 4096" by simp
      obtain m where m: "length mm - pos = 4096 + m" using True by (metis le_Suc_ex)
      have m': "length mm - (pos + 4096) = m" using m by simp
      show ?thesis using IH b1 unfolding len m m' by (simp add: algebra_simps)
    next
      case False
      then have len: "length ?b = length mm - pos" and z: "length mm - (pos + length ?b) = 0" by simp_all
      show ?thesis using IH b1 False unfolding z unfolding len by simp
    qed
  qed
qed

lemma scan_blocks_lower:
  assumes "\<And>b rec r. body b rec = Inr r \<Longrightarrow> length rec + (length b - c) div sz \<le> length r"
    and "scan_blocks body mm pos rec = Inr r"
  shows "length rec + ((4096 - c) div sz) * ((length mm - pos) div 4096)
                      + ((length mm - pos) mod 4096 - c) div sz \<le> length r"
  using assms
proof (induction body mm pos rec rule: scan_blocks.induct)
  case (1 body mm pos rec)
  note bnd = "1.prems"(1) and res = "1.prems"(2)
  let ?b = "take 4096 (drop pos mm)"
  show ?case
  proof (cases "pos < length mm")
    case False
    with res show ?thesis by (subst (asm) scan_blocks.simps) simp
  next
    case lt: True
    from res lt obtain r1 where r1: "body ?b rec = Inr r1"
      and rest: "scan_blocks body mm (pos + length ?b) r1 = Inr r"
      by (subst (asm) scan_blocks.simps) (auto split: sum.splits)
    note IH = "1.IH"[OF lt r1 bnd rest]
    note b1 = bnd[OF r1]
    show ?thesis
    proof (cases "4096 \<le> length mm - pos")
      case True
      then have len: "length ?b = 4096" by simp
      obtain m where m: "length mm - pos = 4096 + m" using True by (metis le_Suc_ex)
      have m': "length mm - (pos + 4096) = m" using m by simp
      show ?thesis using IH b1 unfolding len m m' by (simp add: algebra_simps)
    next
      case False
      then have len: "length ?b = length mm - pos" and z: "length mm - (pos + length ?b) = 0" by simp_all
      show ?thesis using IH b1 False unfolding z unfolding len by simp
    qed
  qed
qed

section \<open>The three block bodies\<close>

lemma calcsizes:
  "calcsize [Fmt_f, Fmt_f] = 8"
  "calcsize [Fmt_i, Fmt_s 29, Fmt_i, Fmt_i, Fmt_i, Fmt_s 2] = 47"
  "calcsize [Fmt_i, Fmt_i, Fmt_s 16, Fmt_b, Fmt_s 12] = 37"
  by (simp_all add: calcsize_def)

lemma struct_iter_unpack_cases:
  assumes "0 < calcsize fs"
  shows "struct_iter_unpack fs bs =
     (if length bs mod calcsize fs = 0 then Inr (map (unpack_fields fs) (chunks (calcsize fs) bs))
      else Inl StructError)"
  using assms by (simp add: struct_iter_unpack_def)

lemma ndc_8_block_cases:
  "ndc_8_block f32 d b rec =
     (if (length b - 136) mod 8 = 0
      then Inr (rec @ map (\<lambda>i. (d (f32 (the_float (i ! 0))), f32 (the_float (i ! 1))))
                        (map (unpack_fields [Fmt_f, Fmt_f]) (chunks 8 (py_slice b 132 (- 4)))))
      else Inl StructError)"
  by (simp add: ndc_8_block_def struct_iter_unpack_cases calcsizes payload_length ebind_def)

lemma length_runInfo_records: "length (runInfo_records its rec) \<le> length rec + length its"
proof (induction its arbitrary: rec)
  case Nil show ?case by simp
next
  case (Cons i its)
  show ?case using Cons[of rec] Cons[of "rec @ [\<lparr>ri_Time = of_int (the_int (i ! 0)) / 1000,
      ri_Timestamp = the_int (i ! 2), ri_Step = the_int (i ! 3), ri_Index = the_int (i ! 4)\<rparr>]"]
    by auto
qed

lemma runInfo_block_cases:
  "runInfo_block b rec =
     (if (length b - 195) mod 47 = 0
      then Inr (runInfo_records
                 (map (unpack_fields [Fmt_i, Fmt_s 29, Fmt_i, Fmt_i, Fmt_i, Fmt_s 2])
                      (chunks 47 (py_slice b 132 (- 63)))) rec)
      else Inl StructError)"
  by (simp add: runInfo_block_def struct_iter_unpack_cases calcsizes payload_length ebind_def)

lemma step_records_result:
  "(\<exists>r. step_records sd its rec = Inr r \<and> length r \<le> length rec + length its) \<or>
   step_records sd its rec = Inl KeyError"
proof (induction its arbitrary: rec)
  case Nil show ?case by simp
next
  case (Cons i its)
  show ?case
  proof (cases "the_int (i ! 1) \<noteq> 0")
    case False
    then show ?thesis using Cons[of rec] by auto
  next
    case True
    show ?thesis
    proof (cases "sd (the_int (i ! 3))")
      case None
      then show ?thesis using True by (simp add: dict_get_def)
    next
      case (Some st)
      then show ?thesis
        using True Cons[of "rec @ [(the_int (i ! 0) + 1, the_int (i ! 1), st)]"]
        by (auto simp: dict_get_def)
    qed
  qed
qed

lemma step_block_cases:
  "step_block sd b rec =
     (if (length b - 137) mod 37 = 0
      then step_records sd (map (unpack_fields [Fmt_i, Fmt_i, Fmt_s 16, Fmt_b, Fmt_s 12])
                                (chunks 37 (py_slice b 132 (- 5)))) rec
      else Inl StructError)"
  by (simp add: step_block_def struct_iter_unpack_cases calcsizes payload_length ebind_def)

lemma length_count_changes_from: "length (count_changes_from p c xs) = length xs"
  by (induction xs arbitrary: p c) auto

lemma length_count_changes: "length (count_changes xs) = length xs"
  by (cases xs) (simp_all add: length_count_changes_from)

lemma length_set_Step: "length (set_Step df (count_changes (map ri_Step df))) = length df"
  by (simp add: set_Step_def length_count_changes)

section \<open>Short trailing blocks\<close>

lemma read_ndc_8_tail:
  assumes "4096 \<le> length mm"
  shows "tail_payload 4 (length mm) mod 8 \<noteq> 0 \<Longrightarrow> read_ndc_8 f32 d mm = Inl StructError"
    and "tail_payload 4 (length mm) mod 8 = 0 \<Longrightarrow>
         \<exists>df. read_ndc_8 f32 d mm = Inr df \<and>
              length df = 495 * full_blocks (length mm) + tail_payload 4 (length mm) div 8"
proof -
  let ?body = "ndc_8_block f32 d"
  have rb: "read_blocks ?body mm = scan_blocks ?body mm 4096 []"
    using assms by (simp add: read_blocks_def)
  {
    assume "tail_payload 4 (length mm) mod 8 \<noteq> 0"
    then have c: "((length mm - 4096) mod 4096 - 136) mod 8 \<noteq> 0" by (simp add: tail_payload_def)
    have "\<exists>e. scan_blocks ?body mm 4096 [] = Inl e \<and> e = StructError"
      by (rule scan_blocks_fail[where c = 136 and sz = 8, OF _ _ c])
         (auto simp: ndc_8_block_cases split: if_splits)
    then show "read_ndc_8 f32 d mm = Inl StructError"
      by (auto simp: read_ndc_8_def rb ebind_def)
  }
  {
    assume "tail_payload 4 (length mm) mod 8 = 0"
    then have c: "((length mm - 4096) mod 4096 - 136) mod 8 = 0" by (simp add: tail_payload_def)
    have "\<exists>r. scan_blocks ?body mm 4096 [] = Inr r"
      by (rule scan_blocks_ok[where c = 136 and sz = 8, OF _ _ c])
         (auto simp: ndc_8_block_cases)
    then obtain r where r: "scan_blocks ?body mm 4096 [] = Inr r" by blast
    have u: "length r \<le> length ([] :: ('a \<times> 'a) list) + ((4096 - 136) div 8) * ((length mm - 4096) div 4096)
                + ((length mm - 4096) mod 4096 - 136) div 8"
      by (rule scan_blocks_bound[where c = 136 and sz = 8, OF _ r])
         (auto simp: ndc_8_block_cases length_chunks payload_length split: if_splits)
    have l: "length ([] :: ('a \<times> 'a) list) + ((4096 - 136) div 8) * ((length mm - 4096) div 4096)
                + ((length mm - 4096) mod 4096 - 136) div 8 \<le> length r"
      by (rule scan_blocks_lower[where c = 136 and sz = 8, OF _ r])
         (auto simp: ndc_8_block_cases length_chunks payload_length split: if_splits)
    from u l have "length r = 495 * full_blocks (length mm) + tail_payload 4 (length mm) div 8"
      by (simp add: full_blocks_def tail_payload_def)
    then show "\<exists>df. read_ndc_8 f32 d mm = Inr df \<and>
              length df = 495 * full_blocks (length mm) + tail_payload 4 (length mm) div 8"
      by (simp add: read_ndc_8_def rb ebind_def r)
  }
qed

lemma read_data_runInfo_ndc8_tail:
  assumes "4096 \<le> length mm"
  shows "tail_payload 63 (length mm) mod 47 \<noteq> 0 \<Longrightarrow> read_data_runInfo_ndc8 mm = Inl StructError"
    and "tail_payload 63 (length mm) mod 47 = 0 \<Longrightarrow>
         \<exists>df. read_data_runInfo_ndc8 mm = Inr df \<and>
              length df \<le> 83 * full_blocks (length mm) + tail_payload 63 (length mm) div 47"
proof -
  let ?body = "runInfo_block"
  have rb: "read_blocks ?body mm = scan_blocks ?body mm 4096 []"
    using assms by (simp add: read_blocks_def)
  {
    assume "tail_payload 63 (length mm) mod 47 \<noteq> 0"
    then have c: "((length mm - 4096) mod 4096 - 195) mod 47 \<noteq> 0" by (simp add: tail_payload_def)
    have "\<exists>e. scan_blocks ?body mm 4096 [] = Inl e \<and> e = StructError"
      by (rule scan_blocks_fail[where c = 195 and sz = 47, OF _ _ c])
         (auto simp: runInfo_block_cases split: if_splits)
    then show "read_data_runInfo_ndc8 mm = Inl StructError"
      by (auto simp: read_data_runInfo_ndc8_def rb ebind_def)
  }
  {
    assume "tail_payload 63 (length mm) mod 47 = 0"
    then have c: "((length mm - 4096) mod 4096 - 195) mod 47 = 0" by (simp add: tail_payload_def)
    have "\<exists>r. scan_blocks ?body mm 4096 [] = Inr r"
      by (rule scan_blocks_ok[where c = 195 and sz = 47, OF _ _ c])
         (auto simp: runInfo_block_cases)
    then obtain r where r: "scan_blocks ?body mm 4096 [] = Inr r" by blast
    have u: "length r \<le> length ([] :: runInfo_row list) + ((4096 - 195) div 47) * ((length mm - 4096) div 4096)
                + ((length mm - 4096) mod 4096 - 195) div 47"
    proof (rule scan_blocks_bound[where c = 195 and sz = 47, OF _ r])
      fix b rec r' assume "runInfo_block b rec = Inr r'"
      then show "length r' \<le> length rec + (length b - 195) div 47"
        using length_runInfo_records[of "map (unpack_fields [Fmt_i, Fmt_s 29, Fmt_i, Fmt_i, Fmt_i, Fmt_s 2])
                      (chunks 47 (py_slice b 132 (- 63)))" rec]
        by (auto simp: runInfo_block_cases length_chunks payload_length split: if_splits)
    qed
    then have "length r \<le> 83 * full_blocks (length mm) + tail_payload 63 (length mm) div 47"
      by (simp add: full_blocks_def tail_payload_def)
    then show "\<exists>df. read_data_runInfo_ndc8 mm = Inr df \<and>
              length df \<le> 83 * full_blocks (length mm) + tail_payload 63 (length mm) div 47"
      by (simp add: read_data_runInfo_ndc8_def rb ebind_def r length_set_Step)
  }
qed

lemma read_data_step_ndc8_tail:
  assumes "4096 \<le> length mm"
  shows "tail_payload 5 (length mm) mod 37 \<noteq> 0 \<Longrightarrow>
           read_data_step_ndc8 sd mm = Inl StructError \<or> read_data_step_ndc8 sd mm = Inl KeyError"
    and "read_data_step_ndc8 sd mm = Inr df \<Longrightarrow>
           length df \<le> 107 * full_blocks (length mm) + tail_payload 5 (length mm) div 37"
proof -
  let ?body = "step_block sd"
  have rb: "read_blocks ?body mm = scan_blocks ?body mm 4096 []"
    using assms by (simp add: read_blocks_def)
  have errs: "\<And>b rec e. step_block sd b rec = Inl e \<Longrightarrow> e = StructError \<or> e = KeyError"
  proof -
    fix b rec e assume "step_block sd b rec = Inl e"
    then show "e = StructError \<or> e = KeyError"
      using step_records_result[of sd "map (unpack_fields [Fmt_i, Fmt_i, Fmt_s 16, Fmt_b, Fmt_s 12])
                                (chunks 37 (py_slice b 132 (- 5)))" rec]
      by (auto simp: step_block_cases split: if_splits)
  qed
  {
    assume "tail_payload 5 (length mm) mod 37 \<noteq> 0"
    then have c: "((length mm - 4096) mod 4096 - 137) mod 37 \<noteq> 0" by (simp add: tail_payload_def)
    have "\<exists>e. scan_blocks ?body mm 4096 [] = Inl e \<and> (e = StructError \<or> e = KeyError)"
      by (rule scan_blocks_fail[where c = 137 and sz = 37, OF _ errs c])
         (auto simp: step_block_cases split: if_splits)
    then show "read_data_step_ndc8 sd mm = Inl StructError \<or> read_data_step_ndc8 sd mm = Inl KeyError"
      by (auto simp: read_data_step_ndc8_def rb ebind_def)
  }
  {
    assume "read_data_step_ndc8 sd mm = Inr df"
    then obtain r where r: "scan_blocks ?body mm 4096 [] = Inr r" and df: "length df = length r"
      by (auto simp: read_data_step_ndc8_def rb ebind_def split: sum.splits)
    have u: "length r \<le> length ([] :: (int \<times> int \<times> 'a) list) + ((4096 - 137) div 37) * ((length mm - 4096) div 4096)
                + ((length mm - 4096) mod 4096 - 137) div 37"
    proof (rule scan_blocks_bound[where c = 137 and sz = 37, OF _ r])
      fix b rec r' assume "step_block sd b rec = Inr r'"
      then show "length r' \<le> length rec + (length b - 137) div 37"
        using step_records_result[of sd "map (unpack_fields [Fmt_i, Fmt_i, Fmt_s 16, Fmt_b, Fmt_s 12])
                                (chunks 37 (py_slice b 132 (- 5)))" rec]
        by (auto simp: step_block_cases length_chunks payload_length split: if_splits)
    qed
    then show "length df \<le> 107 * full_blocks (length mm) + tail_payload 5 (length mm) div 37"
      by (simp add: full_blocks_def tail_payload_def df)
  }
qed

text \<open>
  C9. A short trailing block does not always end the scan cleanly: with 137 bytes after
  the header the payload of the main-sample scanner is a single byte and the scan raises
  \<open>struct.error\<close>.
\<close>

theorem short_block_raises:
  "length ex_short = 4096 + 137 \<and> read_ndc_8 (\<lambda>w. w) (\<lambda>v. v) ex_short = Inl StructError"
proof -
  have l: "length ex_short = 4233" by (simp add: ex_short_def)
  have "tail_payload 4 (length ex_short) mod 8 \<noteq> 0" unfolding l by (simp add: tail_payload_def)
  from read_ndc_8_tail(1)[OF _ this] l show ?thesis by simp
qed

section \<open>The Index of the main samples\<close>

lemma map_Suc_upto: "map (\<lambda>k. int k + 1) [0..<n] = [1..int n]"
proof (induction n)
  case 0 show ?case by simp
next
  case (Suc n)
  have "[1..int (Suc n)] = [1..int n] @ [int n + 1]"
    by (simp add: upto_rec2 add.commute)
  then show ?case using Suc by simp
qed

text \<open>
  C10. The main-sample scanner makes the Index column itself: the pair decoded at position
  \<open>k\<close> of the scan, counted from 0 in block order, becomes the row with Index \<open>k + 1\<close>, so
  the Index values of the table are the consecutive integers from 1 to the number of rows.
\<close>

theorem main_sample_index:
  assumes "read_ndc_8 f32 d mm = Inr df"
  shows "map s_Index df = [1..int (length df)] \<and>
         (\<exists>rec. read_blocks (ndc_8_block f32 d) mm = Inr rec \<and> length rec = length df \<and>
            (\<forall>k<length df. s_Index (df ! k) = int k + 1 \<and>
               s_Voltage (df ! k) = fst (rec ! k) \<and> s_Current (df ! k) = snd (rec ! k)))"
proof -
  from assms obtain rec where rec: "read_blocks (ndc_8_block f32 d) mm = Inr rec"
    and df: "df = map (\<lambda>(k, vc). \<lparr>s_Voltage = fst vc, s_Current = snd vc, s_Index = int k + 1\<rparr>)
                      (enumerate 0 rec)"
    by (auto simp: read_ndc_8_def ebind_def split: sum.splits)
  have len: "length df = length rec" by (simp add: df)
  have "map s_Index df = map (\<lambda>k. int k + 1) [0..<length rec]"
    by (rule nth_equalityI) (simp_all add: df nth_enumerate_eq)
  then have a: "map s_Index df = [1..int (length df)]" by (simp add: map_Suc_upto len)
  have b: "\<forall>k<length df. s_Index (df ! k) = int k + 1 \<and>
               s_Voltage (df ! k) = fst (rec ! k) \<and> s_Current (df ! k) = snd (rec ! k)"
    by (simp add: df nth_enumerate_eq)
  show ?thesis using a b rec len by auto
qed

theorem main_sample_index_witness:
  "\<exists>df. read_ndc_8 (\<lambda>w. w) (\<lambda>v. v) ex_tail = Inr df \<and> map s_Index df = [1]"
proof -
  have l: "length ex_tail = 4240" by (simp add: ex_tail_def)
  have "tail_payload 4 (length ex_tail) mod 8 = 0" unfolding l by (simp add: tail_payload_def)
  from read_ndc_8_tail(2)[OF _ this, of "\<lambda>w. w" "\<lambda>v. v"] l
  obtain df where df: "read_ndc_8 (\<lambda>w. w) (\<lambda>v. v) ex_tail = Inr df" and n: "length df = 1"
    by (auto simp: tail_payload_def full_blocks_def)
  from main_sample_index[OF df] have "map s_Index df = [1]" by (simp add: n)
  then show ?thesis using df by auto
qed


section \<open>The run-info example\<close>

lemma ex_runInfo_rec_len: "length (ex_runInfo_rec s i) = 47" by (simp add: ex_runInfo_rec_def)

lemma ex_runInfo_block:
  "take 4096 (drop 4096 ex_runInfo) = replicate 132 0 @
     ex_runInfo_rec 5 1 @ ex_runInfo_rec 5 2 @ ex_runInfo_rec 5 3 @
     ex_runInfo_rec 7 4 @ ex_runInfo_rec 7 5 @ ex_runInfo_rec 9 6 @ replicate 63 0"
  by (simp add: ex_runInfo_def ex_runInfo_rec_len)

lemma ex_runInfo_payload:
  "py_slice (take 4096 (drop 4096 ex_runInfo)) 132 (- 63) = 
     ex_runInfo_rec 5 1 @ ex_runInfo_rec 5 2 @ ex_runInfo_rec 5 3 @
     ex_runInfo_rec 7 4 @ ex_runInfo_rec 7 5 @ ex_runInfo_rec 9 6"
  unfolding ex_runInfo_block by (simp add: py_slice_def ex_runInfo_rec_len)

lemma ex_runInfo_chunks:
  "chunks 47 (ex_runInfo_rec 5 1 @ ex_runInfo_rec 5 2 @ ex_runInfo_rec 5 3 @
     ex_runInfo_rec 7 4 @ ex_runInfo_rec 7 5 @ ex_runInfo_rec 9 6)
   = [ex_runInfo_rec 5 1, ex_runInfo_rec 5 2, ex_runInfo_rec 5 3,
      ex_runInfo_rec 7 4, ex_runInfo_rec 7 5, ex_runInfo_rec 9 6]"
  by (simp add: chunks_def ex_runInfo_rec_len upt_rec[of _ "numeral _"] upt_rec[of _ "Suc _"])

lemma le_nat_replicate0: "le_nat (replicate n 0) = 0"
  by (induction n) auto

lemma le_int_replicate0: "le_int (replicate n 0) = 0"
  by (simp add: le_int_def le_nat_replicate0)

lemma ex_runInfo_unpack:
  "unpack_fields [Fmt_i, Fmt_s 29, Fmt_i, Fmt_i, Fmt_i, Fmt_s 2] (ex_runInfo_rec s i) =
     [VInt 0, VBytes (replicate 29 0), VInt 0, VInt (le_int [s, 0, 0, 0]), VInt (le_int [i, 0, 0, 0]),
      VBytes [0, 0]]"
  by (simp add: ex_runInfo_rec_def le_int_replicate0)


lemma ex_runInfo_len: "length ex_runInfo = 4573" by (simp add: ex_runInfo_def ex_runInfo_rec_len)
lemma ex_runInfo_block_len: "length (take 4096 (drop 4096 ex_runInfo)) = 477" by (simp add: ex_runInfo_len)
lemma ex_runInfo_scan1: "read_blocks runInfo_block ex_runInfo = runInfo_block (take 4096 (drop 4096 ex_runInfo)) []"
proof -
  have "scan_blocks runInfo_block ex_runInfo 4096 [] =
     (case runInfo_block (take 4096 (drop 4096 ex_runInfo)) [] of Inl e \<Rightarrow> Inl e
      | Inr rec' \<Rightarrow> scan_blocks runInfo_block ex_runInfo 4573 rec')"
    by (subst scan_blocks.simps) (simp add: ex_runInfo_len cong: sum.case_cong)
  moreover have "\<And>r. scan_blocks runInfo_block ex_runInfo 4573 r = Inr r"
    by (subst scan_blocks.simps) (simp add: ex_runInfo_len)
  ultimately show ?thesis by (simp add: read_blocks_def ex_runInfo_len split: sum.splits)
qed

lemma ex_runInfo_scan2: "runInfo_block (take 4096 (drop 4096 ex_runInfo)) [] = Inr (runInfo_records
       (map (unpack_fields [Fmt_i, Fmt_s 29, Fmt_i, Fmt_i, Fmt_i, Fmt_s 2])
         [ex_runInfo_rec 5 1, ex_runInfo_rec 5 2, ex_runInfo_rec 5 3,
          ex_runInfo_rec 7 4, ex_runInfo_rec 7 5, ex_runInfo_rec 9 6]) [])"
    unfolding runInfo_block_cases ex_runInfo_block_len ex_runInfo_payload ex_runInfo_chunks by simp



lemma ex_runInfo_scan3: "Inr (runInfo_records
       (map (unpack_fields [Fmt_i, Fmt_s 29, Fmt_i, Fmt_i, Fmt_i, Fmt_s 2])
         [ex_runInfo_rec 5 1, ex_runInfo_rec 5 2, ex_runInfo_rec 5 3,
          ex_runInfo_rec 7 4, ex_runInfo_rec 7 5, ex_runInfo_rec 9 6]) []) = 
  (Inr [\<lparr>ri_Time = 0, ri_Timestamp = 0, ri_Step = 5, ri_Index = 1\<rparr>,
          \<lparr>ri_Time = 0, ri_Timestamp = 0, ri_Step = 5, ri_Index = 2\<rparr>,
          \<lparr>ri_Time = 0, ri_Timestamp = 0, ri_Step = 5, ri_Index = 3\<rparr>,
          \<lparr>ri_Time = 0, ri_Timestamp = 0, ri_Step = 7, ri_Index = 4\<rparr>,
          \<lparr>ri_Time = 0, ri_Timestamp = 0, ri_Step = 7, ri_Index = 5\<rparr>,
          \<lparr>ri_Time = 0, ri_Timestamp = 0, ri_Step = 9, ri_Index = 6\<rparr>] :: error + runInfo_row list)"
    unfolding list.map ex_runInfo_unpack by (simp add: le_int_def)

lemma ex_runInfo_scan:
  "read_blocks runInfo_block ex_runInfo =
     Inr [\<lparr>ri_Time = 0, ri_Timestamp = 0, ri_Step = 5, ri_Index = 1\<rparr>,
          \<lparr>ri_Time = 0, ri_Timestamp = 0, ri_Step = 5, ri_Index = 2\<rparr>,
          \<lparr>ri_Time = 0, ri_Timestamp = 0, ri_Step = 5, ri_Index = 3\<rparr>,
          \<lparr>ri_Time = 0, ri_Timestamp = 0, ri_Step = 7, ri_Index = 4\<rparr>,
          \<lparr>ri_Time = 0, ri_Timestamp = 0, ri_Step = 7, ri_Index = 5\<rparr>,
          \<lparr>ri_Time = 0, ri_Timestamp = 0, ri_Step = 9, ri_Index = 6\<rparr>]"
  unfolding ex_runInfo_scan1 ex_runInfo_scan2 ex_runInfo_scan3 ..

section \<open>The step counter of the run-info table\<close>

lemma count_changes_from_0:
  "count_changes_from p c (x # xs) ! 0 = (if x \<noteq> p then c + 1 else c)"
  by simp

lemma count_changes_from_Suc:
  "Suc k < length xs \<Longrightarrow>
   count_changes_from p c xs ! Suc k =
     count_changes_from p c xs ! k + (if xs ! Suc k \<noteq> xs ! k then 1 else 0)"
proof (induction xs arbitrary: p c k)
  case Nil then show ?case by simp
next
  case (Cons x xs)
  show ?case
  proof (cases k)
    case 0
    from Cons.prems obtain y ys where xs: "xs = y # ys" by (cases xs) auto
    show ?thesis unfolding 0 xs by simp
  next
    case (Suc j)
    then have "Suc j < length xs" using Cons.prems by simp
    from Cons.IH[OF this] show ?thesis unfolding Suc by simp
  qed
qed

lemma count_changes_nth:
  assumes "k < length xs"
  shows "count_changes xs ! k =
     (if k = 0 then 1 else count_changes xs ! (k - 1) + (if xs ! k \<noteq> xs ! (k - 1) then 1 else 0))"
proof (cases xs)
  case Nil with assms show ?thesis by simp
next
  case (Cons x ys)
  show ?thesis
  proof (cases k)
    case 0 then show ?thesis by (simp add: Cons)
  next
    case (Suc j)
    show ?thesis
    proof (cases j)
      case 0
      from assms Suc 0 obtain y zs where ys: "ys = y # zs" by (cases ys) (auto simp: Cons)
      show ?thesis unfolding Suc 0 Cons ys by simp
    next
      case (Suc i)
      have "Suc i < length ys" using assms \<open>k = Suc j\<close> Suc Cons by simp
      from count_changes_from_Suc[OF this, of x 1] show ?thesis
        unfolding \<open>k = Suc j\<close> Suc Cons by simp
    qed
  qed
qed

text \<open>
  C3. The run-info scanner replaces the raw Step column of the records it kept (those
  with a non-zero index, in scan order) by a counter: the first row gets 1, and every later
  row gets the counter of the row before it, plus 1 exactly when its raw step differs
  from the raw step of the row before it. The other columns are left as they are.
\<close>

theorem runInfo_step_counter:
  assumes "read_blocks runInfo_block mm = Inr rec"
  shows "\<exists>df. read_data_runInfo_ndc8 mm = Inr df \<and> length df = length rec \<and>
           map ri_Step df = count_changes (map ri_Step rec) \<and>
           (\<forall>k<length rec.
              ri_Step (df ! k) =
                (if k = 0 then 1
                 else ri_Step (df ! (k - 1)) +
                      (if ri_Step (rec ! k) \<noteq> ri_Step (rec ! (k - 1)) then 1 else 0)) \<and>
              ri_Index (df ! k) = ri_Index (rec ! k) \<and> ri_Time (df ! k) = ri_Time (rec ! k) \<and>
              ri_Timestamp (df ! k) = ri_Timestamp (rec ! k))"
proof -
  let ?df = "set_Step rec (count_changes (map ri_Step rec))"
  have r: "read_data_runInfo_ndc8 mm = Inr ?df"
    by (simp add: read_data_runInfo_ndc8_def assms ebind_def)
  have len: "length ?df = length rec" by (rule length_set_Step)
  have nth: "\<And>k. k < length rec \<Longrightarrow> ?df ! k = (rec ! k)\<lparr>ri_Step := count_changes (map ri_Step rec) ! k\<rparr>"
    by (simp add: set_Step_def length_count_changes)
  have steps: "map ri_Step ?df = count_changes (map ri_Step rec)"
    by (rule nth_equalityI) (simp_all add: len length_count_changes nth)
  have "\<forall>k<length rec.
              ri_Step (?df ! k) =
                (if k = 0 then 1
                 else ri_Step (?df ! (k - 1)) +
                      (if ri_Step (rec ! k) \<noteq> ri_Step (rec ! (k - 1)) then 1 else 0)) \<and>
              ri_Index (?df ! k) = ri_Index (rec ! k) \<and> ri_Time (?df ! k) = ri_Time (rec ! k) \<and>
              ri_Timestamp (?df ! k) = ri_Timestamp (rec ! k)"
  proof (intro allI impI)
    fix k assume k: "k < length rec"
    then have k': "k < length (map ri_Step rec)" by simp
    have "k - 1 < length rec" using k by simp
    note n1 = nth[OF k] and n2 = nth[OF this]
    show "ri_Step (?df ! k) =
                (if k = 0 then 1
                 else ri_Step (?df ! (k - 1)) +
                      (if ri_Step (rec ! k) \<noteq> ri_Step (rec ! (k - 1)) then 1 else 0)) \<and>
              ri_Index (?df ! k) = ri_Index (rec ! k) \<and> ri_Time (?df ! k) = ri_Time (rec ! k) \<and>
              ri_Timestamp (?df ! k) = ri_Timestamp (rec ! k)"
      unfolding n1 n2 using count_changes_nth[OF k'] k by auto
  qed
  with r len steps show ?thesis by blast
qed

theorem runInfo_step_counter_witness:
  "(\<exists>rec. read_blocks runInfo_block ex_runInfo = Inr rec \<and> map ri_Step rec = [5, 5, 5, 7, 7, 9]) \<and>
   (\<exists>df. read_data_runInfo_ndc8 ex_runInfo = Inr df \<and> map ri_Step df = [1, 1, 1, 2, 2, 3] \<and>
         map ri_Index df = [1, 2, 3, 4, 5, 6])"
proof -
  from runInfo_step_counter[OF ex_runInfo_scan]
  obtain df where df: "read_data_runInfo_ndc8 ex_runInfo = Inr df"
    and st: "map ri_Step df = count_changes [5, 5, 5, 7, 7, 9]"
    by auto
  from df have ix: "map ri_Index df = [1, 2, 3, 4, 5, 6]"
    by (auto simp: read_data_runInfo_ndc8_def ex_runInfo_scan ebind_def set_Step_def)
  show ?thesis using df st ix by (simp add: ex_runInfo_scan)
qed


section \<open>Missing table entries\<close>

text \<open>A scan fails when the body fails on one of its blocks, whatever was collected before.\<close>

lemma scan_blocks_block_fails:
  assumes "\<And>rec. \<exists>e. body (take 4096 (drop p mm)) rec = Inl e \<and> E e"
    and "\<And>b rec e. length b = 4096 \<Longrightarrow> body b rec = Inl e \<Longrightarrow> E e"
    and "pos \<le> p" and "p < length mm" and "(p - pos) mod 4096 = 0"
  shows "\<exists>e. scan_blocks body mm pos rec = Inl e \<and> E e"
  using assms
proof (induction body mm pos rec rule: scan_blocks.induct)
  case (1 body mm pos rec)
  note bad = "1.prems"(1) and err = "1.prems"(2) and le = "1.prems"(3) and lt = "1.prems"(4)
    and al = "1.prems"(5)
  let ?b = "take 4096 (drop pos mm)"
  have lt': "pos < length mm" using le lt by simp
  show ?case
  proof (cases "pos = p")
    case True
    from bad[of rec] show ?thesis unfolding True[symmetric] using lt'
      by (subst scan_blocks.simps) auto
  next
    case False
    then have "0 < p - pos" using le by simp
    with al have far: "4096 \<le> p - pos" by (metis mod_less neq0_conv not_le)
    then have len: "length ?b = 4096" using lt by simp
    show ?thesis
    proof (cases "body ?b rec")
      case (Inl e)
      then show ?thesis using lt' err[OF len Inl] by (subst scan_blocks.simps) simp
    next
      case (Inr rec')
      have a: "pos + length ?b \<le> p" unfolding len using far by simp
      have "(p - (pos + length ?b)) mod 4096 = (p - pos) mod 4096"
        unfolding len using far by (metis diff_diff_left le_mod_geq)
      then have b: "(p - (pos + length ?b)) mod 4096 = 0" using al by simp
      from "1.IH"[OF lt' Inr bad err a lt b] show ?thesis using lt' Inr
        by (subst scan_blocks.simps) simp
    qed
  qed
qed

lemma step_records_KeyError:
  assumes "i \<in> set its" and "the_int (i ! 1) \<noteq> 0" and "sd (the_int (i ! 3)) = None"
  shows "step_records sd its rec = Inl KeyError"
  using assms
proof (induction its arbitrary: rec)
  case Nil then show ?case by simp
next
  case (Cons a its)
  show ?case
  proof (cases "a = i")
    case True
    then show ?thesis using Cons.prems by (simp add: dict_get_def)
  next
    case False
    then have "i \<in> set its" using Cons.prems by simp
    from Cons.IH[OF this Cons.prems(2,3)] show ?thesis
      by (simp add: dict_get_def split: option.split)
  qed
qed

lemma step_records_ran:
  "step_records sd its rec = Inr r \<Longrightarrow> \<forall>x\<in>set rec. snd (snd x) \<in> ran sd \<Longrightarrow>
   \<forall>x\<in>set r. snd (snd x) \<in> ran sd"
proof (induction its arbitrary: rec)
  case Nil then show ?case by simp
next
  case (Cons i its)
  show ?case
  proof (cases "the_int (i ! 1) \<noteq> 0")
    case False
    with Cons show ?thesis by simp
  next
    case True
    with Cons.prems(1) obtain st where st: "sd (the_int (i ! 3)) = Some st"
      and r: "step_records sd its (rec @ [(the_int (i ! 0) + 1, the_int (i ! 1), st)]) = Inr r"
      by (auto simp: dict_get_def split: option.splits)
    have "st \<in> ran sd" using st by (auto simp: ran_def)
    with Cons.prems(2) have "\<forall>x\<in>set (rec @ [(the_int (i ! 0) + 1, the_int (i ! 1), st)]). snd (snd x) \<in> ran sd"
      by auto
    from Cons.IH[OF r this] show ?thesis .
  qed
qed

lemma scan_blocks_invariant:
  assumes "\<And>b rec r. body b rec = Inr r \<Longrightarrow> P rec \<Longrightarrow> P r"
    and "scan_blocks body mm pos rec = Inr r" and "P rec"
  shows "P r"
  using assms
proof (induction body mm pos rec rule: scan_blocks.induct)
  case (1 body mm pos rec)
  note step = "1.prems"(1) and res = "1.prems"(2) and P = "1.prems"(3)
  show ?case
  proof (cases "pos < length mm")
    case False
    with res P show ?thesis by (subst (asm) scan_blocks.simps) simp
  next
    case lt: True
    from res lt obtain r1 where r1: "body (take 4096 (drop pos mm)) rec = Inr r1"
      and rest: "scan_blocks body mm (pos + length (take 4096 (drop pos mm))) r1 = Inr r"
      by (subst (asm) scan_blocks.simps) (auto split: sum.splits)
    from "1.IH"[OF lt r1 step rest step[OF r1 P]] show ?thesis .
  qed
qed

lemma read_data_step_ndc8_ran:
  assumes "read_data_step_ndc8 sd mm = Inr df"
  shows "\<forall>r\<in>set df. st_Status r \<in> ran sd"
proof -
  from assms obtain rec where rec: "read_blocks (step_block sd) mm = Inr rec"
    and df: "df = map (\<lambda>(k, c, x, s). \<lparr>st_Cycle = c, st_Step_Index = x, st_Status = s, st_Step = int k + 1\<rparr>)
                      (enumerate 0 rec)"
    by (auto simp: read_data_step_ndc8_def ebind_def split: sum.splits)
  from rec have sc: "scan_blocks (step_block sd) mm 4096 [] = Inr rec"
    by (auto simp: read_blocks_def split: if_splits)
  have "\<forall>x\<in>set rec. snd (snd x) \<in> ran sd"
  proof (rule scan_blocks_invariant[where P = "\<lambda>rec. \<forall>x\<in>set rec. snd (snd x) \<in> ran sd", OF _ sc])
    fix b rec r assume "step_block sd b rec = Inr r" and "\<forall>x\<in>set rec. snd (snd x) \<in> ran sd"
    then show "\<forall>x\<in>set r. snd (snd x) \<in> ran sd"
      by (auto simp: step_block_cases split: if_splits dest: step_records_ran)
  qed simp
  then show ?thesis unfolding df
    by (auto simp: in_set_enumerate_eq) (metis nth_mem snd_conv)
qed

lemma bytes_to_list_ndc_ran:
  assumes "bytes_to_list_ndc md sd bytes = Inr r"
  shows "Status r \<in> ran sd"
  using assms
  by (auto simp: bytes_to_list_ndc_def ebind_def dict_get_def ran_def
      split: sum.splits option.splits)

lemma ndc_scan_record_fails:
  assumes "header \<le> length mm"
    and "ndc_record md sd (take 94 (drop header mm)) output aux = Inl e"
  shows "ndc_scan md sd mm identifier header output aux = Some (Inl e)"
  using assms by (subst ndc_scan.simps) simp

text \<open>
  C6. A legacy main record whose range code is not in the multiplier table, or whose
  status code is not in the state table, does not decode: the decoder raises \<open>KeyError\<close>,
  and so does the legacy scan that reaches such a record. A step sub-record that is no
  padding and whose status code is not in the state table makes the loop over the
  sub-records raise \<open>KeyError\<close>, and with it the step scan of a buffer that holds such a
  sub-record in one of its blocks. No multiplier is substituted, and every state of a
  returned row is a value of the state table.
\<close>

theorem missing_table_entry_raises:
  "(length bytes = 94 \<and> (md (sint_at bytes 82 4) = None \<or> sd (uint_at bytes 17 1) = None)
      \<longrightarrow> bytes_to_list_ndc md sd bytes = Inl KeyError) \<and>
   (header + 94 \<le> length mm \<and> mm ! header = 0x55 \<and>
    (md (sint_at (take 94 (drop header mm)) 82 4) = None \<or>
     sd (uint_at (take 94 (drop header mm)) 17 1) = None)
      \<longrightarrow> ndc_scan md sd mm identifier header output aux = Some (Inl KeyError)) \<and>
   (\<forall>r. bytes_to_list_ndc md sd bytes = Inr r \<longrightarrow> Status r \<in> ran sd) \<and>
   (i \<in> set its \<and> the_int (i ! 1) \<noteq> 0 \<and> sd (the_int (i ! 3)) = None
      \<longrightarrow> step_records sd its rec = Inl KeyError) \<and>
   (4096 \<le> p \<and> p < length fm \<and> p mod 4096 = 0 \<and>
    struct_iter_unpack [Fmt_i, Fmt_i, Fmt_s 16, Fmt_b, Fmt_s 12]
      (py_slice (take 4096 (drop p fm)) 132 (- 5)) = Inr its \<and>
    i \<in> set its \<and> the_int (i ! 1) \<noteq> 0 \<and> sd (the_int (i ! 3)) = None
      \<longrightarrow> read_data_step_ndc8 sd fm = Inl KeyError) \<and>
   (\<forall>df. read_data_step_ndc8 sd fm = Inr df \<longrightarrow> (\<forall>r\<in>set df. st_Status r \<in> ran sd))"
proof (intro conjI impI allI)
  assume a: "length bytes = 94 \<and> (md (sint_at bytes 82 4) = None \<or> sd (uint_at bytes 17 1) = None)"
  then show "bytes_to_list_ndc md sd bytes = Inl KeyError"
    by (auto simp: bytes_to_list_ndc_94 split: option.splits)
next
  assume a: "header + 94 \<le> length mm \<and> mm ! header = 0x55 \<and>
    (md (sint_at (take 94 (drop header mm)) 82 4) = None \<or>
     sd (uint_at (take 94 (drop header mm)) 17 1) = None)"
  let ?bytes = "take 94 (drop header mm)"
  from a have h: "header + 94 \<le> length mm" and t: "mm ! header = 0x55" by simp_all
  have len: "length ?bytes = 94" using h by simp
  then have ne: "?bytes \<noteq> []" by auto
  have "?bytes ! 0 = 0x55" using h t by simp
  then have hd: "py_slice ?bytes 0 1 = [0x55]" using py_slice_head[OF ne] by simp
  have "bytes_to_list_ndc md sd ?bytes = Inl KeyError"
    using a by (auto simp: bytes_to_list_ndc_94[OF len] split: option.splits)
  then have "ndc_record md sd ?bytes output aux = Inl KeyError"
    by (simp add: ndc_record_def hd ebind_def)
  then show "ndc_scan md sd mm identifier header output aux = Some (Inl KeyError)"
    using h by (intro ndc_scan_record_fails) simp_all
next
  fix r assume "bytes_to_list_ndc md sd bytes = Inr r"
  then show "Status r \<in> ran sd" by (rule bytes_to_list_ndc_ran)
next
  assume "i \<in> set its \<and> the_int (i ! 1) \<noteq> 0 \<and> sd (the_int (i ! 3)) = None"
  then show "step_records sd its rec = Inl KeyError"
    using step_records_KeyError[of i its sd rec] by simp
next
  assume a: "4096 \<le> p \<and> p < length fm \<and> p mod 4096 = 0 \<and>
    struct_iter_unpack [Fmt_i, Fmt_i, Fmt_s 16, Fmt_b, Fmt_s 12]
      (py_slice (take 4096 (drop p fm)) 132 (- 5)) = Inr its \<and>
    i \<in> set its \<and> the_int (i ! 1) \<noteq> 0 \<and> sd (the_int (i ! 3)) = None"
  have bad: "\<And>rec. \<exists>e. step_block sd (take 4096 (drop p fm)) rec = Inl e \<and> e = KeyError"
    using a step_records_KeyError[of i its sd] by (simp add: step_block_def ebind_def)
  have err: "\<And>b rec e. length b = 4096 \<Longrightarrow> step_block sd b rec = Inl e \<Longrightarrow> e = KeyError"
  proof -
    fix b rec e assume "length b = 4096" and "step_block sd b rec = Inl e"
    then show "e = KeyError"
      using step_records_result[of sd "map (unpack_fields [Fmt_i, Fmt_i, Fmt_s 16, Fmt_b, Fmt_s 12])
                                (chunks 37 (py_slice b 132 (- 5)))" rec]
      by (auto simp: step_block_cases)
  qed
  have al: "(p - 4096) mod 4096 = 0" using a by (metis le_mod_geq)
  have "\<exists>e. scan_blocks (step_block sd) fm 4096 [] = Inl e \<and> e = KeyError"
    using a by (intro scan_blocks_block_fails[where p = p and body = "step_block sd" and mm = fm
          and pos = 4096 and E = "\<lambda>e. e = KeyError", OF bad err _ _ al]) simp_all
  then show "read_data_step_ndc8 sd fm = Inl KeyError"
    using a by (auto simp: read_data_step_ndc8_def read_blocks_def ebind_def)
next
  fix df assume "read_data_step_ndc8 sd fm = Inr df"
  then show "\<forall>r\<in>set df. st_Status r \<in> ran sd" by (rule read_data_step_ndc8_ran)
qed

lemma ex_step_rec_len: "length ex_step_rec = 37"
  by (simp add: ex_step_rec_def)

lemma ex_step_unpack:
  "unpack_fields [Fmt_i, Fmt_i, Fmt_s 16, Fmt_b, Fmt_s 12] ex_step_rec =
     [VInt 0, VInt 1, VBytes (replicate 16 0), VInt 7, VBytes (replicate 12 0)]"
  by (simp add: ex_step_rec_def le_int_def)

lemma ex_step_iter:
  "struct_iter_unpack [Fmt_i, Fmt_i, Fmt_s 16, Fmt_b, Fmt_s 12]
      (py_slice (take 4096 (drop 4096 ex_step)) 132 (- 5))
   = Inr [[VInt 0, VInt 1, VBytes (replicate 16 0), VInt 7, VBytes (replicate 12 0)]]"
proof -
  have "take 4096 (drop 4096 ex_step) = replicate 132 0 @ ex_step_rec @ replicate 5 0"
    by (simp add: ex_step_def ex_step_rec_len)
  then have "py_slice (take 4096 (drop 4096 ex_step)) 132 (- 5) = ex_step_rec"
    by (simp add: py_slice_def ex_step_rec_len)
  moreover have "chunks 37 ex_step_rec = [ex_step_rec]"
    by (simp add: chunks_def ex_step_rec_len)
  ultimately have "struct_iter_unpack [Fmt_i, Fmt_i, Fmt_s 16, Fmt_b, Fmt_s 12]
      (py_slice (take 4096 (drop 4096 ex_step)) 132 (- 5))
   = Inr [unpack_fields [Fmt_i, Fmt_i, Fmt_s 16, Fmt_b, Fmt_s 12] ex_step_rec]"
    by (simp add: struct_iter_unpack_cases calcsizes ex_step_rec_len del: unpack_fields.simps)
  then show ?thesis unfolding ex_step_unpack .
qed

theorem missing_table_entry_raises_witness:
  "length ex_slice = 94 \<and> Map.empty (sint_at ex_slice 82 4) = (None :: rat option) \<and>
   bytes_to_list_ndc Map.empty ex_sd ex_slice = Inl KeyError \<and>
   4096 < length ex_step \<and>
   struct_iter_unpack [Fmt_i, Fmt_i, Fmt_s 16, Fmt_b, Fmt_s 12]
      (py_slice (take 4096 (drop 4096 ex_step)) 132 (- 5))
     = Inr [[VInt 0, VInt 1, VBytes (replicate 16 0), VInt 7, VBytes (replicate 12 0)]] \<and>
   ex_sd 7 = None \<and>
   read_data_step_ndc8 ex_sd ex_step = Inl KeyError"
proof -
  let ?i = "[VInt 0, VInt 1, VBytes (replicate 16 0), VInt 7, VBytes (replicate 12 0)]"
  note T = missing_table_entry_raises[where bytes = ex_slice and md = Map.empty and sd = ex_sd
      and p = 4096 and fm = ex_step and its = "[?i]" and i = ?i]
  have l: "4096 < length ex_step" by (simp add: ex_step_def ex_step_rec_len)
  have n: "ex_sd 7 = None" by (simp add: ex_sd_def)
  have a: "bytes_to_list_ndc Map.empty ex_sd ex_slice = Inl KeyError"
    using T[THEN conjunct1] by (simp add: ex_slice_fields(1))
  have b: "read_data_step_ndc8 ex_sd ex_step = Inl KeyError"
    using T[THEN conjunct2, THEN conjunct2, THEN conjunct2, THEN conjunct2, THEN conjunct1]
    by (simp add: l n ex_step_iter)
  show ?thesis using a b l n ex_step_iter by (simp add: ex_slice_fields(1))
qed


section \<open>The version router\<close>

lemma fixed_block_path_result:
  "fixed_block_path sd f32 dv ft zf data = Inr res \<Longrightarrow> \<exists>t. res = FixedBlock t"
  by (auto simp: fixed_block_path_def ebind_def split: sum.splits)

lemma legacy_path_result:
  "legacy_path md sd cast zf data = Some (Inr res) \<Longrightarrow> \<exists>m a. res = Legacy m a"
  by (auto simp: legacy_path_def split: option.splits sum.splits)

text \<open>
  C4. The reader routes on the revision, the digit at position 14 of the server version
  string. A revision above 8 raises \<open>NotImplementedError\<close> whatever the archive holds, so
  before any member of it is read. Revision 8 takes the fixed-block path on \<open>data.ndc\<close>
  and a revision of at most 7 the legacy path, and a result is a table of that path only.
\<close>

theorem version_routing:
  assumes "14 < length server" and "py_int (server ! 14) = Some d"
  shows "(8 < d \<longrightarrow>
            read_ndax py_int md sd cast f32 dv ft server zf = Some (Inl NotImplementedError)) \<and>
         (d = 8 \<longrightarrow>
            read_ndax py_int md sd cast f32 dv ft server zf =
              (case zf_extract zf ''data.ndc'' of
                 Inl e \<Rightarrow> Some (Inl e)
               | Inr data_file \<Rightarrow> Some (fixed_block_path sd f32 dv ft zf data_file)) \<and>
            (\<forall>res. read_ndax py_int md sd cast f32 dv ft server zf = Some (Inr res)
                \<longrightarrow> (\<exists>t. res = FixedBlock t))) \<and>
         (d \<le> 7 \<longrightarrow>
            read_ndax py_int md sd cast f32 dv ft server zf =
              (case zf_extract zf ''data.ndc'' of
                 Inl e \<Rightarrow> Some (Inl e)
               | Inr data_file \<Rightarrow> legacy_path md sd cast zf data_file) \<and>
            (\<forall>res. read_ndax py_int md sd cast f32 dv ft server zf = Some (Inr res)
                \<longrightarrow> (\<exists>m a. res = Legacy m a)))"
proof -
  have r: "revision py_int server = Inr d" using assms by (simp add: revision_def)
  show ?thesis
    by (auto simp: read_ndax_def r split: sum.splits
        dest: fixed_block_path_result legacy_path_result)
qed

theorem version_routing_witness:
  "14 < length ex_server9 \<and> ex_py_int (ex_server9 ! 14) = Some 9 \<and>
   read_ndax ex_py_int ex_md ex_sd (\<lambda>r. r) (\<lambda>w. w) (\<lambda>v. v) (\<lambda>t. Inr t) ex_server9
     [(''data.ndc'', ex_tail)] = Some (Inl NotImplementedError) \<and>
   14 < length ex_server8 \<and> ex_py_int (ex_server8 ! 14) = Some 8 \<and>
   read_ndax ex_py_int ex_md ex_sd (\<lambda>r. r) (\<lambda>w. w) (\<lambda>v. v) (\<lambda>t. Inr t) ex_server8
     [(''data.ndc'', ex_tail)] =
     Some (fixed_block_path ex_sd (\<lambda>w. w) (\<lambda>v. v) (\<lambda>t. Inr t) [(''data.ndc'', ex_tail)] ex_tail) \<and>
   14 < length ex_server7 \<and> ex_py_int (ex_server7 ! 14) = Some 7 \<and>
   read_ndax ex_py_int ex_md ex_sd (\<lambda>r. r) (\<lambda>w. w) (\<lambda>v. v) (\<lambda>t. Inr t) ex_server7
     [(''data.ndc'', ex_tail)] =
     (legacy_path ex_md ex_sd (\<lambda>r. r) [(''data.ndc'', ex_tail)] ex_tail
       :: (error + (32 word, int, string) ndax_result) option)"
proof -
  have l9: "14 < length ex_server9" and d9: "ex_py_int (ex_server9 ! 14) = Some 9"
    by (simp_all add: ex_server9_def ex_py_int_def)
  have l8: "14 < length ex_server8" and d8: "ex_py_int (ex_server8 ! 14) = Some 8"
    by (simp_all add: ex_server8_def ex_py_int_def)
  have l7: "14 < length ex_server7" and d7: "ex_py_int (ex_server7 ! 14) = Some 7"
    by (simp_all add: ex_server7_def ex_py_int_def)
  have z: "zf_extract [(''data.ndc'', ex_tail)] ''data.ndc'' = Inr ex_tail"
    by (simp add: zf_extract_def)
  note A = version_routing[where server = ex_server9 and py_int = ex_py_int and d = 9 and md = ex_md
      and sd = ex_sd and cast = "\<lambda>r. r" and ?f32.0 = "\<lambda>w. w" and dv = "\<lambda>v. v"
      and ft = "\<lambda>t. Inr t" and zf = "[(''data.ndc'', ex_tail)]", OF l9 d9]
  note B = version_routing[where server = ex_server8 and py_int = ex_py_int and d = 8 and md = ex_md
      and sd = ex_sd and cast = "\<lambda>r. r" and ?f32.0 = "\<lambda>w. w" and dv = "\<lambda>v. v"
      and ft = "\<lambda>t. Inr t" and zf = "[(''data.ndc'', ex_tail)]", OF l8 d8]
  note C = version_routing[where server = ex_server7 and py_int = ex_py_int and d = 7 and md = ex_md
      and sd = ex_sd and cast = "\<lambda>r. r" and ?f32.0 = "\<lambda>w. w" and dv = "\<lambda>v. v"
      and ft = "\<lambda>t. Inr t" and zf = "[(''data.ndc'', ex_tail)]", OF l7 d7]
  show ?thesis using A B C l9 d9 l8 d8 l7 d7 by (simp add: z)
qed


section \<open>The legacy scan\<close>

lemma mm_find_Some:
  assumes "mm_find mm sub start = Some h"
  shows "take (length sub) (drop h mm) = sub" and "min start (length mm) \<le> h"
    and "h + length sub \<le> length mm"
proof -
  from assms obtain k where k: "k < length [min start (length mm) ..< Suc (length mm) - length sub]"
    and h: "[min start (length mm) ..< Suc (length mm) - length sub] ! k = h"
    and p: "take (length sub) (drop h mm) = sub"
    unfolding mm_find_def find_Some_iff by blast
  show "take (length sub) (drop h mm) = sub" by (rule p)
  from k h have "h = min start (length mm) + k" and "h < Suc (length mm) - length sub" by auto
  then show "min start (length mm) \<le> h" and "h + length sub \<le> length mm" by auto
qed

lemma bytes_to_list_ndc_Index_range:
  assumes "bytes_to_list_ndc md sd bytes = Inr r"
  shows "0 \<le> Index r \<and> Index r < 2 ^ 32"
proof -
  from assms obtain ic where u: "struct_unpack [Fmt_I, Fmt_I] (py_slice bytes 8 16) = Inr ic"
    and i: "Index r = the_int (ic ! 0)"
    by (auto simp: bytes_to_list_ndc_def ebind_def split: sum.splits)
  from u have "the_int (ic ! 0) = int (le_nat (take 4 (py_slice bytes 8 16)))"
    by (auto simp: struct_unpack_def split: if_splits)
  moreover have "le_nat (take 4 (py_slice bytes 8 16)) < 256 ^ 4"
  proof -
    have "(256::nat) ^ length (take 4 (py_slice bytes 8 16)) \<le> 256 ^ 4"
      by (rule power_increasing) simp_all
    with le_nat_bound[of "take 4 (py_slice bytes 8 16)"] show ?thesis by (rule less_le_trans)
  qed
  ultimately show ?thesis using i by simp
qed

lemma aux_65_t: "aux_bytes_65_to_list_ndc bytes = Inr a \<Longrightarrow> a_t a = None"
  by (auto simp: aux_bytes_65_to_list_ndc_def ebind_def split: sum.splits)

lemma aux_74_t: "aux_bytes_74_to_list_ndc bytes = Inr a \<Longrightarrow> a_t a \<noteq> None"
  by (cases "a_t a") (auto simp: aux_bytes_74_to_list_ndc_def ebind_def split: sum.splits)

text \<open>
  One pass of the loop on a slice that begins with the byte \<open>t\<close>: main rows keep their
  Index within 32 bits, and a row is added to \<open>aux\<close> exactly when \<open>t\<close> is one of the two
  auxiliary type bytes, with the entries of that variant.
\<close>

lemma ndc_record_step:
  assumes "ndc_record md sd bytes outp aux = Inr (outp', aux')"
    and "bytes \<noteq> []" and "bytes ! 0 = t"
  shows "(\<forall>r\<in>set outp. 0 \<le> Index r \<and> Index r < 2 ^ 32) \<longrightarrow>
         (\<forall>r\<in>set outp'. 0 \<le> Index r \<and> Index r < 2 ^ 32)"
    and "t = 0x65 \<Longrightarrow> \<exists>a. aux' = aux @ [a] \<and> a_t a = None"
    and "t = 0x74 \<Longrightarrow> \<exists>a. aux' = aux @ [a] \<and> a_t a \<noteq> None"
    and "t \<noteq> 0x65 \<Longrightarrow> t \<noteq> 0x74 \<Longrightarrow> aux' = aux"
proof -
  have hd: "py_slice bytes 0 1 = [t]" using py_slice_head[OF assms(2)] assms(3) by simp
  show "(\<forall>r\<in>set outp. 0 \<le> Index r \<and> Index r < 2 ^ 32) \<longrightarrow>
         (\<forall>r\<in>set outp'. 0 \<le> Index r \<and> Index r < 2 ^ 32)"
    using assms(1) unfolding ndc_record_def hd
    using bytes_to_list_ndc_Index_range[of md sd bytes]
    by (auto simp: ebind_def split: if_splits sum.splits)
  show "t = 0x65 \<Longrightarrow> \<exists>a. aux' = aux @ [a] \<and> a_t a = None"
    using assms(1) unfolding ndc_record_def hd
    by (auto simp: ebind_def split: if_splits sum.splits dest: aux_65_t)
  show "t = 0x74 \<Longrightarrow> \<exists>a. aux' = aux @ [a] \<and> a_t a \<noteq> None"
    using assms(1) unfolding ndc_record_def hd
    by (auto simp: ebind_def split: if_splits sum.splits dest: aux_74_t)
  show "t \<noteq> 0x65 \<Longrightarrow> t \<noteq> 0x74 \<Longrightarrow> aux' = aux"
    using assms(1) unfolding ndc_record_def hd
    by (auto simp: ebind_def split: if_splits sum.splits)
qed

text \<open>
  The invariant of the loop, for a scan that starts on a slice which begins with the
  non-empty identifier: every later slice begins with it too, so all slices have the type
  byte of the identifier.
\<close>

lemma ndc_scan_invariant:
  assumes "ndc_scan md sd mm ident header outp aux = Some res"
  shows "ident \<noteq> [] \<longrightarrow> take (length ident) (drop header mm) = ident \<longrightarrow>
         (\<forall>out' aux'. res = Inr (out', aux') \<longrightarrow>
            ((\<forall>r\<in>set outp. 0 \<le> Index r \<and> Index r < 2 ^ 32) \<longrightarrow>
             (\<forall>r\<in>set out'. 0 \<le> Index r \<and> Index r < 2 ^ 32)) \<and>
            (hd ident = 0x65 \<longrightarrow> aux' \<noteq> [] \<and>
               ((\<forall>a\<in>set aux. a_t a = None) \<longrightarrow> (\<forall>a\<in>set aux'. a_t a = None))) \<and>
            (hd ident = 0x74 \<longrightarrow> aux' \<noteq> [] \<and>
               ((\<forall>a\<in>set aux. a_t a \<noteq> None) \<longrightarrow> (\<forall>a\<in>set aux'. a_t a \<noteq> None))) \<and>
            (hd ident \<noteq> 0x65 \<longrightarrow> hd ident \<noteq> 0x74 \<longrightarrow> aux' = aux))"
  using assms
proof (induction md sd mm ident header outp aux res rule: ndc_scan.raw_induct[rotated, consumes 1, case_names step])
  case (step scan md sd mm ident header outp aux res)
  let ?bytes = "take 94 (drop header mm)"
  show ?case
  proof (intro impI allI)
    fix out' aux'
    assume ne: "ident \<noteq> []" and st: "take (length ident) (drop header mm) = ident"
      and res: "res = Inr (out', aux')"
    from ne st have dn: "drop header mm \<noteq> []" by auto
    then have bn: "?bytes \<noteq> []" by simp
    have "?bytes ! 0 = drop header mm ! 0" using dn by (cases "drop header mm") simp_all
    also have "\<dots> = take (length ident) (drop header mm) ! 0" using ne by simp
    also have "\<dots> = hd ident" unfolding st using ne by (simp add: hd_conv_nth)
    finally have b0: "?bytes ! 0 = hd ident" .
    have nl: "\<not> length mm < header" using dn by simp
    obtain out1 aux1 where rec: "ndc_record md sd ?bytes outp aux = Inr (out1, aux1)"
      and rest: "(case mm_find mm ident (header + 94) of None \<Rightarrow> Some (Inr (out1, aux1))
                  | Some h \<Rightarrow> scan md sd mm ident h out1 aux1) = Some (Inr (out', aux'))"
    proof (cases "ndc_record md sd ?bytes outp aux")
      case (Inl e)
      with step.hyps nl res show ?thesis by simp
    next
      case (Inr oa)
      obtain o1 a1 where oa: "oa = (o1, a1)" by (cases oa)
      from step.hyps nl res Inr oa
      have "(case mm_find mm ident (header + 94) of None \<Rightarrow> Some (Inr (o1, a1))
                  | Some h \<Rightarrow> scan md sd mm ident h o1 a1) = Some (Inr (out', aux'))"
        by (simp cong: option.case_cong)
      with Inr oa that show ?thesis by simp
    qed
    note S = ndc_record_step[OF rec bn b0]
    define Q where "Q = (\<lambda>rs :: 'a main_row list. \<forall>r\<in>set rs. 0 \<le> Index r \<and> Index r < 2 ^ 32)"
    define A where "A = (\<lambda>xs :: aux_row list. \<forall>a\<in>set xs. a_t a = None)"
    define B where "B = (\<lambda>xs :: aux_row list. \<forall>a\<in>set xs. a_t a \<noteq> None)"
    have S1: "Q outp \<longrightarrow> Q out1" using S(1) unfolding Q_def .
    have S2: "hd ident = 0x65 \<Longrightarrow> aux1 \<noteq> [] \<and> (A aux \<longrightarrow> A aux1)"
    proof -
      assume "hd ident = 0x65"
      from S(2)[OF this] obtain x where "aux1 = aux @ [x]" and "a_t x = None" by blast
      then show ?thesis by (simp add: A_def)
    qed
    have S3: "hd ident = 0x74 \<Longrightarrow> aux1 \<noteq> [] \<and> (B aux \<longrightarrow> B aux1)"
    proof -
      assume "hd ident = 0x74"
      from S(3)[OF this] obtain x where "aux1 = aux @ [x]" and "a_t x \<noteq> None" by blast
      then show ?thesis by (simp add: B_def)
    qed
    note S4 = S(4)
    have IH: "(Q out1 \<longrightarrow> Q out') \<and> (A aux1 \<longrightarrow> A aux') \<and> (B aux1 \<longrightarrow> B aux') \<and>
              (aux1 \<noteq> [] \<longrightarrow> aux' \<noteq> []) \<and>
              (hd ident \<noteq> 0x65 \<longrightarrow> hd ident \<noteq> 0x74 \<longrightarrow> aux' = aux1)"
    proof (cases "mm_find mm ident (header + 94)")
      case None
      with rest have e: "out' = out1" "aux' = aux1" by simp_all
      show ?thesis unfolding e by simp
    next
      case (Some h)
      with rest have sc: "scan md sd mm ident h out1 aux1 = Some (Inr (out', aux'))" by simp
      have st': "take (length ident) (drop h mm) = ident" by (rule mm_find_Some(1)[OF Some])
      note X = step.IH[OF sc, THEN mp, OF ne, THEN mp, OF st', THEN spec, THEN spec, THEN mp, OF refl]
      have X': "(Q out1 \<longrightarrow> Q out') \<and>
            (hd ident = 0x65 \<longrightarrow> aux' \<noteq> [] \<and> (A aux1 \<longrightarrow> A aux')) \<and>
            (hd ident = 0x74 \<longrightarrow> aux' \<noteq> [] \<and> (B aux1 \<longrightarrow> B aux')) \<and>
            (hd ident \<noteq> 0x65 \<longrightarrow> hd ident \<noteq> 0x74 \<longrightarrow> aux' = aux1)"
        unfolding Q_def A_def B_def by (rule X)
      have nA: "hd ident \<noteq> 0x65 \<Longrightarrow> A aux1 \<longrightarrow> A aux'"
      proof (cases "hd ident = 0x74")
        case True
        assume "hd ident \<noteq> 0x65"
        from S(3)[OF True] obtain x where "aux1 = aux @ [x]" and "a_t x \<noteq> None" by blast
        then have "\<not> A aux1" by (simp add: A_def)
        then show ?thesis by simp
      next
        case False
        assume "hd ident \<noteq> 0x65"
        with False X' have "aux' = aux1" by blast
        then show ?thesis by simp
      qed
      have nB: "hd ident \<noteq> 0x74 \<Longrightarrow> B aux1 \<longrightarrow> B aux'"
      proof (cases "hd ident = 0x65")
        case True
        assume "hd ident \<noteq> 0x74"
        from S(2)[OF True] obtain x where "aux1 = aux @ [x]" and "a_t x = None" by blast
        then have "\<not> B aux1" by (simp add: B_def)
        then show ?thesis by simp
      next
        case False
        assume "hd ident \<noteq> 0x74"
        with False X' have "aux' = aux1" by blast
        then show ?thesis by simp
      qed
      have ne': "aux1 \<noteq> [] \<longrightarrow> aux' \<noteq> []" using X' by blast
      show ?thesis using X' nA nB ne' by blast
    qed
    have G: "(Q outp \<longrightarrow> Q out') \<and>
            (hd ident = 0x65 \<longrightarrow> aux' \<noteq> [] \<and> (A aux \<longrightarrow> A aux')) \<and>
            (hd ident = 0x74 \<longrightarrow> aux' \<noteq> [] \<and> (B aux \<longrightarrow> B aux')) \<and>
            (hd ident \<noteq> 0x65 \<longrightarrow> hd ident \<noteq> 0x74 \<longrightarrow> aux' = aux)"
      using S1 S2 S3 S4 IH by blast
    show "((\<forall>r\<in>set outp. 0 \<le> Index r \<and> Index r < 2 ^ 32) \<longrightarrow>
             (\<forall>r\<in>set out'. 0 \<le> Index r \<and> Index r < 2 ^ 32)) \<and>
            (hd ident = 0x65 \<longrightarrow> aux' \<noteq> [] \<and>
               ((\<forall>a\<in>set aux. a_t a = None) \<longrightarrow> (\<forall>a\<in>set aux'. a_t a = None))) \<and>
            (hd ident = 0x74 \<longrightarrow> aux' \<noteq> [] \<and>
               ((\<forall>a\<in>set aux. a_t a \<noteq> None) \<longrightarrow> (\<forall>a\<in>set aux'. a_t a \<noteq> None))) \<and>
            (hd ident \<noteq> 0x65 \<longrightarrow> hd ident \<noteq> 0x74 \<longrightarrow> aux' = aux)"
      using G unfolding Q_def A_def B_def .
  qed
qed

text \<open>With an empty identifier the loop returns no tables: it raises or runs forever.\<close>

lemma ndc_scan_empty_identifier:
  assumes "ndc_scan md sd mm ident header outp aux = Some res"
  shows "ident = [] \<longrightarrow> length mm \<le> header \<longrightarrow> (\<exists>e. res = Inl e)"
  using assms
proof (induction md sd mm ident header outp aux res rule: ndc_scan.raw_induct[rotated, consumes 1, case_names step])
  case (step scan md sd mm ident header outp aux res)
  show ?case
  proof (intro impI)
    assume e: "ident = []" and le: "length mm \<le> header"
    show "\<exists>e. res = Inl e"
    proof (cases "length mm < header")
      case True
      with step.hyps show ?thesis by auto
    next
      case False
      with le have h: "header = length mm" by simp
      have f: "mm_find mm [] (header + 94) = Some (length mm)"
        by (simp add: mm_find_def h upt_rec)
      have r: "ndc_record md sd (take 94 (drop header mm)) outp aux = Inr (outp, aux)"
        by (simp add: h ndc_record_def py_slice_head_Nil)
      from step.hyps have "scan md sd mm ident (length mm) outp aux = Some res"
        using False by (simp add: r f e)
      from step.IH[OF this] e show ?thesis by simp
    qed
  qed
qed

lemma identifier_empty: "py_slice mm 517 525 = [] \<longleftrightarrow> length mm \<le> 517"
  by (auto simp: py_slice_def Let_def min_def)

lemma identifier_start:
  "take (length (py_slice mm 517 525)) (drop 517 mm) = py_slice mm 517 525"
  by (auto simp: py_slice_def Let_def min_def)

text \<open>What \<open>read_ndc\<close> returns after a scan that returned its two lists.\<close>

lemma read_ndc_result:
  assumes "ndc_scan md sd mm (py_slice mm 517 525) 517 [] [] = Some (Inr (outp, aux))"
  shows "py_slice mm 517 525 \<noteq> []"
    and "\<forall>r\<in>set outp. 0 \<le> Index r \<and> Index r < 2 ^ 32"
    and "hd (py_slice mm 517 525) = 0x65 \<Longrightarrow>
           aux \<noteq> [] \<and> (\<forall>a\<in>set aux. a_t a = None) \<and>
           read_ndc md sd cast mm =
             Some (Inr (assemble_main cast outp,
                        \<lparr>columns = [''Index'', ''Aux'', ''V'', ''T''], rows = aux\<rparr>))"
    and "hd (py_slice mm 517 525) = 0x74 \<Longrightarrow>
           aux \<noteq> [] \<and> (\<forall>a\<in>set aux. a_t a \<noteq> None) \<and>
           read_ndc md sd cast mm =
             Some (Inr (assemble_main cast outp,
                        \<lparr>columns = [''Index'', ''Aux'', ''V'', ''T'', ''t''], rows = aux\<rparr>))"
    and "hd (py_slice mm 517 525) \<noteq> 0x65 \<Longrightarrow> hd (py_slice mm 517 525) \<noteq> 0x74 \<Longrightarrow>
           aux = [] \<and>
           read_ndc md sd cast mm =
             Some (Inr (assemble_main cast outp, \<lparr>columns = [], rows = []\<rparr>))"
proof -
  let ?id = "py_slice mm 517 525"
  show ne: "?id \<noteq> []"
  proof
    assume e: "?id = []"
    then have "length mm \<le> 517" by (simp add: identifier_empty)
    with ndc_scan_empty_identifier[OF assms] e show False by simp
  qed
  from ndc_scan_invariant[OF assms] ne identifier_start[of mm]
  have I: "(\<forall>r\<in>set outp. 0 \<le> Index r \<and> Index r < 2 ^ 32) \<and>
      (hd ?id = 0x65 \<longrightarrow> aux \<noteq> [] \<and> (\<forall>a\<in>set aux. a_t a = None)) \<and>
      (hd ?id = 0x74 \<longrightarrow> aux \<noteq> [] \<and> (\<forall>a\<in>set aux. a_t a \<noteq> None)) \<and>
      (hd ?id \<noteq> 0x65 \<longrightarrow> hd ?id \<noteq> 0x74 \<longrightarrow> aux = [])"
    by simp
  then show "\<forall>r\<in>set outp. 0 \<le> Index r \<and> Index r < 2 ^ 32" by blast
  have hd: "py_slice ?id 0 1 = [hd ?id]" using py_slice_head[OF ne] ne by (simp add: hd_conv_nth)
  have rd: "read_ndc md sd cast mm =
      Some (ebind (assemble_aux ?id aux) (\<lambda>aux_df. Inr (assemble_main cast outp, aux_df)))"
    by (simp add: read_ndc_def Let_def assms)
  {
    assume h: "hd ?id = 0x65"
    with I have a: "aux \<noteq> []" "\<forall>a\<in>set aux. a_t a = None" by blast+
    have "assemble_aux ?id aux = Inr \<lparr>columns = [''Index'', ''Aux'', ''V'', ''T''], rows = aux\<rparr>"
      using a(2) by (simp add: assemble_aux_def hd h DataFrame_def aux_width_def list_all_iff)
    then show "aux \<noteq> [] \<and> (\<forall>a\<in>set aux. a_t a = None) \<and>
           read_ndc md sd cast mm =
             Some (Inr (assemble_main cast outp,
                        \<lparr>columns = [''Index'', ''Aux'', ''V'', ''T''], rows = aux\<rparr>))"
      using a by (simp add: rd ebind_def)
  }
  {
    assume h: "hd ?id = 0x74"
    with I have a: "aux \<noteq> []" "\<forall>a\<in>set aux. a_t a \<noteq> None" by blast+
    have "assemble_aux ?id aux = Inr \<lparr>columns = [''Index'', ''Aux'', ''V'', ''T'', ''t''], rows = aux\<rparr>"
      using a(2) by (simp add: assemble_aux_def hd h DataFrame_def aux_width_def list_all_iff)
    then show "aux \<noteq> [] \<and> (\<forall>a\<in>set aux. a_t a \<noteq> None) \<and>
           read_ndc md sd cast mm =
             Some (Inr (assemble_main cast outp,
                        \<lparr>columns = [''Index'', ''Aux'', ''V'', ''T'', ''t''], rows = aux\<rparr>))"
      using a by (simp add: rd ebind_def)
  }
  {
    assume h: "hd ?id \<noteq> 0x65" "hd ?id \<noteq> 0x74"
    with I have a: "aux = []" by blast
    have "assemble_aux ?id aux = Inr \<lparr>columns = [], rows = []\<rparr>"
      using h by (simp add: assemble_aux_def hd)
    then show "aux = [] \<and>
           read_ndc md sd cast mm =
             Some (Inr (assemble_main cast outp, \<lparr>columns = [], rows = []\<rparr>))"
      using a by (simp add: rd ebind_def)
  }
qed


section \<open>Assembling the main table\<close>

lemma drop_duplicates_Index:
  "set (map Index (drop_duplicates seen xs)) = set (map Index xs) - set seen"
  by (induction seen xs rule: drop_duplicates.induct) auto

lemma drop_duplicates_distinct: "distinct (map Index (drop_duplicates seen xs))"
proof (induction seen xs rule: drop_duplicates.induct)
  case (1 seen) show ?case by simp
next
  case (2 seen r rs)
  have "Index r \<notin> set (map Index (drop_duplicates (Index r # seen) rs))"
    unfolding drop_duplicates_Index by simp
  with 2 show ?case by simp
qed

lemma drop_duplicates_subset: "set (drop_duplicates seen xs) \<subseteq> set xs"
  by (induction seen xs rule: drop_duplicates.induct) auto

lemma drop_duplicates_first:
  "r \<in> set (drop_duplicates seen xs) \<Longrightarrow> List.find (\<lambda>y. Index y = Index r) xs = Some r"
proof (induction seen xs rule: drop_duplicates.induct)
  case (1 seen) then show ?case by simp
next
  case (2 seen x xs)
  show ?case
  proof (cases "Index x \<in> set seen")
    case True
    with "2.prems" have in': "r \<in> set (drop_duplicates seen xs)" by simp
    then have "Index r \<in> set (map Index (drop_duplicates seen xs))" by simp
    then have "Index r \<notin> set seen" unfolding drop_duplicates_Index by simp
    with True have "Index x \<noteq> Index r" by auto
    with "2.IH"(1)[OF True in'] show ?thesis by simp
  next
    case False
    show ?thesis
    proof (cases "r = x")
      case True then show ?thesis by simp
    next
      case neq: False
      with "2.prems" False have in': "r \<in> set (drop_duplicates (Index x # seen) xs)" by simp
      then have "Index r \<in> set (map Index (drop_duplicates (Index x # seen) xs))" by simp
      then have "Index x \<noteq> Index r" unfolding drop_duplicates_Index by auto
      with "2.IH"(2)[OF False in'] show ?thesis by simp
    qed
  qed
qed

lemma sort_values_Index:
  assumes "distinct (map Index df)"
  shows "sorted_wrt (<) (map Index (sort_values df))" and "set (sort_values df) = set df"
proof -
  have d: "distinct df" and inj: "inj_on Index (set df)" using assms by (simp_all add: distinct_map)
  have "distinct (map Index (sort_values df))"
    using d inj by (simp add: distinct_map sort_values_def)
  moreover have "sorted (map Index (sort_values df))" by (simp add: sort_values_def)
  ultimately show "sorted_wrt (<) (map Index (sort_values df))" by (simp add: strict_sorted_iff)
  show "set (sort_values df) = set df" by (simp add: sort_values_def)
qed

text \<open>The main table assembled from rows whose Index fits in 32 bits.\<close>

lemma assemble_main_Index:
  assumes "\<forall>r\<in>set outp. 0 \<le> Index r \<and> Index r < 2 ^ 32"
  shows "sorted_wrt (<) (map Index (assemble_main cast outp))"
    and "set (map Index (assemble_main cast outp)) = set (map Index outp)"
    and "\<forall>r\<in>set (assemble_main cast outp).
           \<exists>x. List.find (\<lambda>y. Index y = Index r) outp = Some x \<and> r = astype cast x"
proof -
  define df1 where "df1 = drop_duplicates [] outp"
  define df2 where "df2 = (if sorted (map Index df1) then df1 else sort_values df1)"
  have am: "assemble_main cast outp = map (astype cast) df2"
    by (simp add: assemble_main_def df1_def df2_def Let_def)
  have d1: "distinct (map Index df1)" unfolding df1_def by (rule drop_duplicates_distinct)
  have s2: "set df2 = set df1" unfolding df2_def using sort_values_Index(2)[OF d1] by simp
  have st: "sorted_wrt (<) (map Index df2)"
    unfolding df2_def using sort_values_Index(1)[OF d1] d1 by (simp add: strict_sorted_iff)
  have sub: "set df2 \<subseteq> set outp" unfolding s2 df1_def by (rule drop_duplicates_subset)
  have ix: "\<And>r. r \<in> set df2 \<Longrightarrow> Index (astype cast r) = Index r"
  proof -
    fix r assume "r \<in> set df2"
    with sub assms have "0 \<le> Index r \<and> Index r < 2 ^ 32" by blast
    then show "Index (astype cast r) = Index r" by (simp add: astype_def)
  qed
  have mi: "map Index (assemble_main cast outp) = map Index df2"
    unfolding am using ix by simp
  show "sorted_wrt (<) (map Index (assemble_main cast outp))" unfolding mi by (rule st)
  have "set (map Index df2) = set (map Index df1)" using s2 by simp
  also have "\<dots> = set (map Index outp)" unfolding df1_def drop_duplicates_Index by simp
  finally show "set (map Index (assemble_main cast outp)) = set (map Index outp)" unfolding mi .
  show "\<forall>r\<in>set (assemble_main cast outp).
           \<exists>x. List.find (\<lambda>y. Index y = Index r) outp = Some x \<and> r = astype cast x"
  proof
    fix r assume "r \<in> set (assemble_main cast outp)"
    then obtain x where x: "x \<in> set df2" and r: "r = astype cast x" unfolding am by auto
    from x have "x \<in> set (drop_duplicates [] outp)" unfolding s2 df1_def .
    from drop_duplicates_first[OF this] ix[OF x] r
    show "\<exists>x. List.find (\<lambda>y. Index y = Index r) outp = Some x \<and> r = astype cast x" by auto
  qed
qed

lemma read_ndc_tables:
  assumes "ndc_scan md sd mm (py_slice mm 517 525) 517 [] [] = Some (Inr (outp, aux))"
  shows "\<exists>aux_df. read_ndc md sd cast mm = Some (Inr (assemble_main cast outp, aux_df)) \<and>
      ((\<exists>a\<in>set aux. a_t a = None) \<longrightarrow>
         aux_df = \<lparr>columns = [''Index'', ''Aux'', ''V'', ''T''], rows = aux\<rparr>) \<and>
      ((\<exists>a\<in>set aux. a_t a \<noteq> None) \<longrightarrow>
         aux_df = \<lparr>columns = [''Index'', ''Aux'', ''V'', ''T'', ''t''], rows = aux\<rparr>) \<and>
      (aux = [] \<longrightarrow> aux_df = \<lparr>columns = [], rows = []\<rparr>)"
proof -
  let ?t = "hd (py_slice mm 517 525)"
  note R3 = read_ndc_result(3)[OF assms, of cast] and R4 = read_ndc_result(4)[OF assms, of cast]
    and R5 = read_ndc_result(5)[OF assms, of cast]
  consider (a) "?t = 0x65" | (b) "?t = 0x74" | (c) "?t \<noteq> 0x65" "?t \<noteq> 0x74" by blast
  then show ?thesis
  proof cases
    case a
    from R3[OF a] show ?thesis by auto
  next
    case b
    from R4[OF b] show ?thesis by auto
  next
    case c
    from R5[OF c] show ?thesis by auto
  qed
qed

section \<open>The legacy examples\<close>

lemma ex_slice_decodes: "bytes_to_list_ndc ex_md ex_sd ex_slice = Inr ex_row"
  by (simp add: bytes_to_list_ndc_94 ex_slice_fields ex_md_def ex_sd_def valid_date_def
      days_in_month_def ex_row_def del: One_nat_def)

lemma ex_slice_record: "ndc_record ex_md ex_sd ex_slice outp aux = Inr (outp @ [ex_row], aux)"
proof -
  have "ex_slice \<noteq> []" using ex_slice_fields(1) by auto
  from py_slice_head[OF this] have "py_slice ex_slice 0 1 = [0x55]" by (simp add: ex_slice_fields(2))
  then show ?thesis by (simp add: ndc_record_def ex_slice_decodes ebind_def)
qed

lemma find_upt_first: "s < e \<Longrightarrow> P s \<Longrightarrow> List.find P [s..<e] = Some s"
  by (simp add: upt_conv_Cons)

lemma ex_legacy_scan:
  "ndc_scan ex_md ex_sd ex_legacy (py_slice ex_legacy 517 525) 517 [] [] = Some (Inr ([ex_row], []))"
proof -
  have l: "length ex_legacy = 611" by (simp add: ex_legacy_def ex_slice_fields(1))
  have i: "py_slice ex_legacy 517 525 = take 8 ex_slice"
    by (simp add: py_slice_def l) (simp add: ex_legacy_def)
  have b: "take 94 (drop 517 ex_legacy) = ex_slice" by (simp add: ex_legacy_def ex_slice_fields(1))
  have f: "mm_find ex_legacy (take 8 ex_slice) 611 = None"
    by (simp add: mm_find_def l ex_slice_fields(1))
  show ?thesis unfolding i
    by (subst ndc_scan.simps) (simp add: l b f ex_slice_record)
qed

lemma ex_legacy_twice_scan:
  "ndc_scan ex_md ex_sd ex_legacy_twice (py_slice ex_legacy_twice 517 525) 517 [] [] =
     Some (Inr ([ex_row, ex_row], []))"
proof -
  have l: "length ex_legacy_twice = 705" by (simp add: ex_legacy_twice_def ex_slice_fields(1))
  have i: "py_slice ex_legacy_twice 517 525 = take 8 ex_slice"
    by (simp add: py_slice_def l) (simp add: ex_legacy_twice_def ex_slice_fields(1))
  have b1: "take 94 (drop 517 ex_legacy_twice) = ex_slice"
    by (simp add: ex_legacy_twice_def ex_slice_fields(1))
  have b2: "take 94 (drop 611 ex_legacy_twice) = ex_slice"
    by (simp add: ex_legacy_twice_def ex_slice_fields(1))
  have "take 8 (drop 611 ex_legacy_twice) = take 8 ex_slice"
    by (simp add: ex_legacy_twice_def ex_slice_fields(1))
  then have f1: "mm_find ex_legacy_twice (take 8 ex_slice) 611 = Some 611"
    by (simp add: mm_find_def l ex_slice_fields(1) find_upt_first)
  have f2: "mm_find ex_legacy_twice (take 8 ex_slice) 705 = None"
    by (simp add: mm_find_def l ex_slice_fields(1))
  have s2: "ndc_scan ex_md ex_sd ex_legacy_twice (take 8 ex_slice) 611 [ex_row] [] =
     Some (Inr ([ex_row, ex_row], []))"
    by (subst ndc_scan.simps) (simp add: l b2 f2 ex_slice_record)
  show ?thesis unfolding i
    by (subst ndc_scan.simps) (simp add: l b1 f1 ex_slice_record s2)
qed

lemma ex_aux65_decodes:
  "aux_bytes_65_to_list_ndc ex_aux65 =
     Inr \<lparr>a_Index = 1, a_Aux = 2, a_V = 36 / 10, a_T = 25, a_t = None\<rparr>"
proof -
  have l: "length ex_aux65 = 94" by (simp add: ex_aux65_def)
  have s: "py_slice ex_aux65 3 4 = [2]" "py_slice ex_aux65 8 12 = [1, 0, 0, 0]"
    "py_slice ex_aux65 41 43 = [0xFA, 0]" "py_slice ex_aux65 31 35 = [0xA0, 0x8C, 0, 0]"
    by (simp_all add: py_slice_def l) (simp_all add: ex_aux65_def)
  show ?thesis
    by (simp add: aux_bytes_65_to_list_ndc_def s struct_unpack_def calcsize_def ebind_def le_int_def)
qed

lemma ex_aux_file_scan:
  "ndc_scan ex_md ex_sd ex_aux_file (py_slice ex_aux_file 517 525) 517 [] [] =
     Some (Inr ([], [\<lparr>a_Index = 1, a_Aux = 2, a_V = 36 / 10, a_T = 25, a_t = None\<rparr>]))"
proof -
  have la: "length ex_aux65 = 94" by (simp add: ex_aux65_def)
  have l: "length ex_aux_file = 611" by (simp add: ex_aux_file_def la)
  have i: "py_slice ex_aux_file 517 525 = take 8 ex_aux65"
    by (simp add: py_slice_def l) (simp add: ex_aux_file_def)
  have b: "take 94 (drop 517 ex_aux_file) = ex_aux65" by (simp add: ex_aux_file_def la)
  have f: "mm_find ex_aux_file (take 8 ex_aux65) 611 = None"
    by (simp add: mm_find_def l la)
  have "ex_aux65 \<noteq> []" using la by auto
  from py_slice_head[OF this] have h: "py_slice ex_aux65 0 1 = [0x65]" by (simp add: ex_aux65_def)
  have r: "ndc_record ex_md ex_sd ex_aux65 [] [] =
     Inr ([], [\<lparr>a_Index = 1, a_Aux = 2, a_V = 36 / 10, a_T = 25, a_t = None\<rparr>])"
    by (simp add: ndc_record_def h ex_aux65_decodes ebind_def)
  show ?thesis unfolding i
    by (subst ndc_scan.simps) (simp add: l b f r)
qed

text \<open>
  C8. The columns of the auxiliary table follow the variant of the auxiliary records the
  scan collected: rows of the variant \<open>0x65\<close> (four entries) give the columns Index, Aux, V
  and T, rows of the variant \<open>0x74\<close> (five entries) give those and the column t, and a
  scan that collected no auxiliary record gives the empty table.
\<close>

theorem legacy_aux_table_columns:
  assumes "ndc_scan md sd mm (py_slice mm 517 525) 517 [] [] = Some (Inr (outp, aux))"
  shows "\<exists>df aux_df. read_ndc md sd cast mm = Some (Inr (df, aux_df)) \<and>
      ((\<exists>a\<in>set aux. a_t a = None) \<longrightarrow>
         aux_df = \<lparr>columns = [''Index'', ''Aux'', ''V'', ''T''], rows = aux\<rparr>) \<and>
      ((\<exists>a\<in>set aux. a_t a \<noteq> None) \<longrightarrow>
         aux_df = \<lparr>columns = [''Index'', ''Aux'', ''V'', ''T'', ''t''], rows = aux\<rparr>) \<and>
      (aux = [] \<longrightarrow> aux_df = \<lparr>columns = [], rows = []\<rparr>)"
  using read_ndc_tables[OF assms, of cast] by blast

theorem legacy_aux_table_columns_witness:
  "ndc_scan ex_md ex_sd ex_aux_file (py_slice ex_aux_file 517 525) 517 [] [] =
     Some (Inr ([], [\<lparr>a_Index = 1, a_Aux = 2, a_V = 36 / 10, a_T = 25, a_t = None\<rparr>])) \<and>
   (\<exists>df. read_ndc ex_md ex_sd (\<lambda>r. r) ex_aux_file =
      Some (Inr (df, \<lparr>columns = [''Index'', ''Aux'', ''V'', ''T''],
                      rows = [\<lparr>a_Index = 1, a_Aux = 2, a_V = 36 / 10, a_T = 25, a_t = None\<rparr>]\<rparr>))) \<and>
   ndc_scan ex_md ex_sd ex_legacy (py_slice ex_legacy 517 525) 517 [] [] = Some (Inr ([ex_row], [])) \<and>
   (\<exists>df. read_ndc ex_md ex_sd (\<lambda>r. r) ex_legacy = Some (Inr (df, \<lparr>columns = [], rows = []\<rparr>)))"
proof -
  from legacy_aux_table_columns[OF ex_aux_file_scan, of "\<lambda>r. r"]
  have a: "\<exists>df. read_ndc ex_md ex_sd (\<lambda>r. r) ex_aux_file =
      Some (Inr (df, \<lparr>columns = [''Index'', ''Aux'', ''V'', ''T''],
                      rows = [\<lparr>a_Index = 1, a_Aux = 2, a_V = 36 / 10, a_T = 25, a_t = None\<rparr>]\<rparr>))"
    by auto
  from legacy_aux_table_columns[OF ex_legacy_scan, of "\<lambda>r. r"]
  have b: "\<exists>df. read_ndc ex_md ex_sd (\<lambda>r. r) ex_legacy = Some (Inr (df, \<lparr>columns = [], rows = []\<rparr>))"
    by auto
  show ?thesis using a b ex_aux_file_scan ex_legacy_scan by simp
qed

text \<open>
  C5. The main table that \<open>read_ndc\<close> assembles from the rows of its scan has strictly
  increasing, hence unique, Index values. It holds exactly the Index values of the scan,
  and the row of an Index is the cast of the first row of the scan with that Index. No
  exception is raised in the assembly.
\<close>

theorem legacy_index_strictly_increasing:
  assumes "ndc_scan md sd mm (py_slice mm 517 525) 517 [] [] = Some (Inr (outp, aux))"
  shows "\<exists>df aux_df. read_ndc md sd cast mm = Some (Inr (df, aux_df)) \<and>
      sorted_wrt (<) (map Index df) \<and>
      set (map Index df) = set (map Index outp) \<and>
      (\<forall>r\<in>set df. \<exists>x. List.find (\<lambda>y. Index y = Index r) outp = Some x \<and> r = astype cast x)"
proof -
  from read_ndc_tables[OF assms, of cast] obtain aux_df where
    r: "read_ndc md sd cast mm = Some (Inr (assemble_main cast outp, aux_df))" by blast
  note A = assemble_main_Index[OF read_ndc_result(2)[OF assms], of cast]
  show ?thesis using r A by blast
qed

theorem legacy_index_strictly_increasing_witness:
  "ndc_scan ex_md ex_sd ex_legacy_twice (py_slice ex_legacy_twice 517 525) 517 [] [] =
     Some (Inr ([ex_row, ex_row], [])) \<and>
   (\<exists>df aux_df. read_ndc ex_md ex_sd (\<lambda>r. r) ex_legacy_twice = Some (Inr (df, aux_df)) \<and>
      sorted_wrt (<) (map Index df) \<and> set (map Index df) = {1})"
proof -
  from legacy_index_strictly_increasing[OF ex_legacy_twice_scan, of "\<lambda>r. r"]
  have "\<exists>df aux_df. read_ndc ex_md ex_sd (\<lambda>r. r) ex_legacy_twice = Some (Inr (df, aux_df)) \<and>
      sorted_wrt (<) (map Index df) \<and> set (map Index df) = {1}"
    by (auto simp: ex_row_def)
  then show ?thesis using ex_legacy_twice_scan by simp
qed


section \<open>Forward fill and interpolation, row by row\<close>















section \<open>The joins\<close>






section \<open>The merge of the new-format tables\<close>







section \<open>The merge examples\<close>










section \<open>Termination of the legacy scan\<close>

text \<open>
  With a non-empty identifier every pass moves the header forward, so the loop returns:
  its tables or an exception.
\<close>

lemma ndc_scan_returns:
  assumes "ident \<noteq> []"
  shows "\<exists>res. ndc_scan md sd mm ident header outp aux = Some res"
proof (induction "length mm - header" arbitrary: header outp aux rule: less_induct)
  case less
  show ?case
  proof (cases "length mm < header")
    case True
    then show ?thesis by (subst ndc_scan.simps) simp
  next
    case nl: False
    show ?thesis
    proof (cases "ndc_record md sd (take 94 (drop header mm)) outp aux")
      case (Inl e)
      then show ?thesis using nl by (subst ndc_scan.simps) simp
    next
      case (Inr oa)
      show ?thesis
      proof (cases "mm_find mm ident (header + 94)")
        case None
        then show ?thesis using nl Inr by (subst ndc_scan.simps) simp
      next
        case (Some h)
        from mm_find_Some(2,3)[OF Some] assms
        have "min (header + 94) (length mm) \<le> h" and "h < length mm"
          by (simp_all add: Suc_le_eq) (cases ident, simp_all)
        then have "length mm - h < length mm - header" by (auto simp: min_def split: if_splits)
        from less[OF this, of "fst oa" "snd oa"] show ?thesis
          using nl Inr Some by (subst ndc_scan.simps) simp
      qed
    qed
  qed
qed

lemma read_ndc_returns:
  assumes "517 < length mm"
  shows "\<exists>res. read_ndc md sd cast mm = Some res"
proof -
  have "py_slice mm 517 525 \<noteq> []" using assms by (simp add: identifier_empty)
  from ndc_scan_returns[OF this, of md sd mm 517 "[]" "[]"]
  obtain res where "ndc_scan md sd mm (py_slice mm 517 525) 517 [] [] = Some res" by blast
  then show ?thesis by (cases res) (simp_all add: read_ndc_def Let_def)
qed

text \<open>
  On a buffer of exactly 517 bytes the identifier is empty and is found again at the end
  of the map in every pass: the loop never returns.
\<close>

lemma ndc_scan_no_result:
  assumes "ndc_scan md sd mm ident header outp aux = Some res"
  shows "ident = [] \<longrightarrow> header = length mm \<longrightarrow> False"
  using assms
proof (induction md sd mm ident header outp aux res rule: ndc_scan.raw_induct[rotated, consumes 1, case_names step])
  case (step scan md sd mm ident header outp aux res)
  show ?case
  proof (intro impI)
    assume e: "ident = []" and h: "header = length mm"
    have f: "mm_find mm [] (length mm + 94) = Some (length mm)"
      by (simp add: mm_find_def upt_rec)
    have r: "ndc_record md sd [] outp aux = Inr (outp, aux)"
      by (simp add: ndc_record_def py_slice_head_Nil)
    from step.hyps have "scan md sd mm ident (length mm) outp aux = Some res"
      by (simp add: r f e h)
    from step.IH[OF this] e show False by simp
  qed
qed

lemma read_ndc_diverges:
  assumes "length mm = 517"
  shows "read_ndc md sd cast mm = None"
proof -
  have i: "py_slice mm 517 525 = []" using assms by (simp add: identifier_empty)
  have "ndc_scan md sd mm [] 517 [] [] = None"
  proof (cases "ndc_scan md sd mm [] 517 [] []")
    case None then show ?thesis .
  next
    case (Some res)
    from ndc_scan_no_result[OF Some] assms show ?thesis by simp
  qed
  then show ?thesis by (simp add: read_ndc_def i)
qed


section \<open>Blocks and whole sub-records\<close>

lemma sub_records_whole:
  assumes "j < length (sub_records sz t b)"
  shows "length (sub_records sz t b ! j) = sz"
    and "132 + sz * j + sz + t \<le> length b"
    and "sub_records sz t b ! j = take sz (drop (132 + sz * j) b)"
proof -
  let ?m = "length b - (132 + t)"
  from assms have j: "j < ?m div sz" by (simp add: sub_records_def)
  then have sz: "0 < sz" by (cases sz) auto
  have "Suc j * sz \<le> (?m div sz) * sz" using j by (intro mult_le_mono1) simp
  also have "\<dots> \<le> ?m" by simp
  finally have a: "sz * j + sz \<le> ?m" by (simp add: mult.commute)
  with sz show b: "132 + sz * j + sz + t \<le> length b" by linarith
  show c: "sub_records sz t b ! j = take sz (drop (132 + sz * j) b)"
    using j by (simp add: sub_records_def)
  show "length (sub_records sz t b ! j) = sz" unfolding c using b by simp
qed

lemma sub_records_length:
  assumes "s \<in> set (sub_records sz t b)"
  shows "length s = sz"
  using assms sub_records_whole(1)[of _ sz t b] by (auto simp: in_set_conv_nth)

lemma all_sub_records_length:
  assumes "s \<in> set (all_sub_records sz t mm)"
  shows "length s = sz"
  using assms sub_records_length by (auto simp: all_sub_records_def)

lemma py_slice_payload:
  assumes "0 < t"
  shows "py_slice b 132 (- int t) = take (length b - (132 + t)) (drop 132 b)"
proof -
  have "nat (int (length b) - int t - 132) = length b - (132 + t)" by linarith
  then show ?thesis using assms by (auto simp: py_slice_def Let_def min_def max_def)
qed

lemma chunks_payload:
  assumes "0 < t"
  shows "chunks sz (py_slice b 132 (- int t)) = sub_records sz t b"
proof -
  let ?m = "length b - (132 + t)"
  have len: "length (take ?m (drop 132 b)) = ?m" by simp
  have "take sz (drop (k * sz) (take ?m (drop 132 b))) = take sz (drop (132 + sz * k) b)"
    if k: "k < ?m div sz" for k
  proof -
    have "Suc k * sz \<le> (?m div sz) * sz" using k by (intro mult_le_mono1) simp
    also have "\<dots> \<le> ?m" by simp
    finally have a: "k * sz + sz \<le> ?m" by simp
    have "take sz (drop (k * sz) (take ?m (drop 132 b)))
        = take sz (take (?m - k * sz) (drop (k * sz) (drop 132 b)))"
      by (simp only: drop_take)
    also have "\<dots> = take sz (drop (k * sz) (drop 132 b))"
      using a by (simp add: min_def)
    also have "\<dots> = take sz (drop (132 + sz * k) b)"
      by (simp add: add.commute mult.commute)
    finally show ?thesis .
  qed
  then show ?thesis
    unfolding py_slice_payload[OF assms] chunks_def sub_records_def len by simp
qed

lemma chunks_payloads:
  "chunks 8 (py_slice b 132 (- 4)) = sub_records 8 4 b"
  "chunks 47 (py_slice b 132 (- 63)) = sub_records 47 63 b"
  "chunks 37 (py_slice b 132 (- 5)) = sub_records 37 5 b"
  using chunks_payload[of 4 8 b] chunks_payload[of 63 47 b] chunks_payload[of 5 37 b]
  by simp_all

text \<open>
  The block loop visits the blocks of \<open>blocks_of\<close> in order; when the body appends to the
  list on each of them, the scan returns what the blocks append, one after the other.
\<close>

lemma scan_blocks_collect:
  assumes "\<And>k rec. k < (length mm - pos + 4095) div 4096 \<Longrightarrow>
             body (take 4096 (drop (pos + 4096 * k) mm)) rec =
               Inr (rec @ g (take 4096 (drop (pos + 4096 * k) mm)))"
  shows "scan_blocks body mm pos rec =
     Inr (rec @ concat (map (\<lambda>k. g (take 4096 (drop (pos + 4096 * k) mm)))
                            [0 ..< (length mm - pos + 4095) div 4096]))"
  using assms
proof (induction "(length mm - pos + 4095) div 4096" arbitrary: pos rec)
  case 0
  from 0(1) have "\<not> pos < length mm" by linarith
  then show ?case unfolding 0(1)[symmetric] by (subst scan_blocks.simps) simp
next
  case (Suc n)
  let ?b = "take 4096 (drop pos mm)"
  have lt: "pos < length mm" using Suc.hyps(2) by linarith
  have "0 < (length mm - pos + 4095) div 4096" unfolding Suc.hyps(2)[symmetric] by simp
  from Suc.prems[OF this, of rec] have b0: "body ?b rec = Inr (rec @ g ?b)" by simp
  show ?case
  proof (cases "4096 \<le> length mm - pos")
    case True
    then have len: "length ?b = 4096" by simp
    have n: "n = (length mm - (pos + 4096) + 4095) div 4096" using Suc.hyps(2) True by linarith
    have "scan_blocks body mm (pos + 4096) (rec @ g ?b) =
       Inr ((rec @ g ?b) @ concat (map (\<lambda>k. g (take 4096 (drop (pos + 4096 + 4096 * k) mm)))
                            [0 ..< (length mm - (pos + 4096) + 4095) div 4096]))"
    proof (rule Suc.hyps(1)[OF n])
      fix k rec' assume "k < (length mm - (pos + 4096) + 4095) div 4096"
      then have "Suc k < (length mm - pos + 4095) div 4096"
        unfolding n[symmetric] Suc.hyps(2)[symmetric] by simp
      from Suc.prems[OF this, of rec']
      show "body (take 4096 (drop (pos + 4096 + 4096 * k) mm)) rec' =
               Inr (rec' @ g (take 4096 (drop (pos + 4096 + 4096 * k) mm)))"
        by (simp add: add.assoc)
    qed
    then have rest: "scan_blocks body mm (pos + 4096) (rec @ g ?b) =
       Inr (rec @ g ?b @ concat (map (\<lambda>k. g (take 4096 (drop (pos + 4096 * Suc k) mm))) [0 ..< n]))"
      unfolding n[symmetric] by (simp add: add.assoc)
    have "[0 ..< Suc n] = 0 # map Suc [0 ..< n]"
      by (simp add: upt_conv_Cons map_Suc_upt del: upt_Suc)
    then have "concat (map (\<lambda>k. g (take 4096 (drop (pos + 4096 * k) mm))) [0 ..< Suc n])
        = g ?b @ concat (map (\<lambda>k. g (take 4096 (drop (pos + 4096 * Suc k) mm))) [0 ..< n])"
      by (simp add: comp_def del: upt_Suc)
    then show ?thesis
      unfolding Suc.hyps(2)[symmetric]
      using lt b0 rest len by (subst scan_blocks.simps) (simp del: upt_Suc)
  next
    case False
    then have len: "pos + length ?b = length mm" using lt by simp
    have n: "Suc n = 1" using Suc.hyps(2) False lt by linarith
    have "scan_blocks body mm (length mm) (rec @ g ?b) = Inr (rec @ g ?b)"
      by (subst scan_blocks.simps) simp
    then show ?thesis
      unfolding Suc.hyps(2)[symmetric] n
      using lt b0 len by (subst scan_blocks.simps) simp
  qed
qed

lemma read_blocks_collect:
  assumes "4096 \<le> length mm"
    and "\<And>b rec. b \<in> set (blocks_of mm) \<Longrightarrow> body b rec = Inr (rec @ g b)"
  shows "read_blocks body mm = Inr (concat (map g (blocks_of mm)))"
proof -
  have "scan_blocks body mm 4096 [] =
     Inr ([] @ concat (map (\<lambda>k. g (take 4096 (drop (4096 + 4096 * k) mm)))
                            [0 ..< (length mm - 4096 + 4095) div 4096]))"
    by (rule scan_blocks_collect) (rule assms(2), simp add: blocks_of_def)
  then show ?thesis using assms(1) by (simp add: read_blocks_def blocks_of_def comp_def)
qed

lemma block_length_cases:
  assumes "b \<in> set (blocks_of mm)"
  shows "length b = 4096 \<or> length b = (length mm - 4096) mod 4096"
proof -
  from assms have "\<exists>k. k < (length mm - 4096 + 4095) div 4096 \<and>
      b = take 4096 (drop (4096 + 4096 * k) mm)"
    unfolding blocks_of_def set_map set_upt image_iff atLeastLessThan_iff Bex_def by blast
  then obtain k where k: "k < (length mm - 4096 + 4095) div 4096"
    and b: "b = take 4096 (drop (4096 + 4096 * k) mm)"
    by blast
  show ?thesis
  proof (cases "4096 \<le> length mm - (4096 + 4096 * k)")
    case True then show ?thesis by (simp add: b)
  next
    case False
    then have "length b = length mm - (4096 + 4096 * k)" by (simp add: b)
    moreover have "length mm - (4096 + 4096 * k) = (length mm - 4096) mod 4096"
    proof -
      define r where "r = length mm - 4096 - 4096 * k"
      have "Suc k \<le> (length mm - 4096 + 4095) div 4096" using k by simp
      then have "Suc k * 4096 \<le> length mm - 4096 + 4095"
        by (simp only: less_eq_div_iff_mult_less_eq zero_less_numeral)
      then have lt: "4096 * k < length mm - 4096" by simp
      then have M: "length mm - 4096 = 4096 * k + r" unfolding r_def by simp
      have e: "length mm - (4096 + 4096 * k) = r" unfolding r_def by simp
      have "r < 4096" using False unfolding e by simp
      then have "(length mm - 4096) mod 4096 = r" unfolding M by simp
      then show ?thesis unfolding e by simp
    qed
    ultimately show ?thesis by simp
  qed
qed

lemma block_payload_whole:
  assumes "b \<in> set (blocks_of mm)" and "(4096 - (132 + t)) mod sz = 0"
    and "tail_payload t (length mm) mod sz = 0"
  shows "(length b - (132 + t)) mod sz = 0"
  using block_length_cases[OF assms(1)] assms(2,3) by (auto simp: tail_payload_def)


section \<open>The rows of whole sub-records\<close>

lemma unpack_fields_whole:
  assumes "length s = calcsize fs"
  shows "unpack_fields fs s = fields_at fs 0 s"
  using unpack_fields_at[of fs 0 s] assms by simp

lemma unpack_main:
  assumes "length s = 8"
  shows "the_float (unpack_fields [Fmt_f, Fmt_f] s ! 0) = word_of_int (uint_at s 0 4)"
    and "the_float (unpack_fields [Fmt_f, Fmt_f] s ! 1) = word_of_int (uint_at s 4 4)"
proof -
  have u: "unpack_fields [Fmt_f, Fmt_f] s = fields_at [Fmt_f, Fmt_f] 0 s"
    by (rule unpack_fields_whole) (simp add: assms calcsizes)
  have a: "int (le_nat (take 4 (drop 0 s))) = uint_at s 0 4"
    and b: "int (le_nat (take 4 (drop 4 s))) = uint_at s 4 4"
    by (rule le_nat_at, simp add: assms)+
  show "the_float (unpack_fields [Fmt_f, Fmt_f] s ! 0) = word_of_int (uint_at s 0 4)"
    unfolding u a[symmetric] by simp
  show "the_float (unpack_fields [Fmt_f, Fmt_f] s ! 1) = word_of_int (uint_at s 4 4)"
    unfolding u b[symmetric] by simp
qed

lemma unpack_runInfo:
  assumes "length s = 47"
  shows "the_int (unpack_fields [Fmt_i, Fmt_s 29, Fmt_i, Fmt_i, Fmt_i, Fmt_s 2] s ! 0) = sint_at s 0 4"
    and "the_int (unpack_fields [Fmt_i, Fmt_s 29, Fmt_i, Fmt_i, Fmt_i, Fmt_s 2] s ! 2) = sint_at s 33 4"
    and "the_int (unpack_fields [Fmt_i, Fmt_s 29, Fmt_i, Fmt_i, Fmt_i, Fmt_s 2] s ! 3) = sint_at s 37 4"
    and "the_int (unpack_fields [Fmt_i, Fmt_s 29, Fmt_i, Fmt_i, Fmt_i, Fmt_s 2] s ! 4) = sint_at s 41 4"
proof -
  let ?fs = "[Fmt_i, Fmt_s 29, Fmt_i, Fmt_i, Fmt_i, Fmt_s 2]"
  have u: "unpack_fields ?fs s = fields_at ?fs 0 s"
    by (rule unpack_fields_whole) (simp add: assms calcsizes)
  have a: "le_int (take 4 (drop 0 s)) = sint_at s 0 4"
    and b: "le_int (take 4 (drop 33 s)) = sint_at s 33 4"
    and c: "le_int (take 4 (drop 37 s)) = sint_at s 37 4"
    and d: "le_int (take 4 (drop 41 s)) = sint_at s 41 4"
    by (rule le_int_at, simp add: assms, simp)+
  show "the_int (unpack_fields ?fs s ! 0) = sint_at s 0 4" unfolding u a[symmetric] by simp
  show "the_int (unpack_fields ?fs s ! 2) = sint_at s 33 4" unfolding u b[symmetric] by simp
  show "the_int (unpack_fields ?fs s ! 3) = sint_at s 37 4" unfolding u c[symmetric] by simp
  show "the_int (unpack_fields ?fs s ! 4) = sint_at s 41 4" unfolding u d[symmetric] by simp
qed

lemma unpack_step:
  assumes "length s = 37"
  shows "the_int (unpack_fields [Fmt_i, Fmt_i, Fmt_s 16, Fmt_b, Fmt_s 12] s ! 0) = sint_at s 0 4"
    and "the_int (unpack_fields [Fmt_i, Fmt_i, Fmt_s 16, Fmt_b, Fmt_s 12] s ! 1) = sint_at s 4 4"
    and "the_int (unpack_fields [Fmt_i, Fmt_i, Fmt_s 16, Fmt_b, Fmt_s 12] s ! 3) = sint_at s 24 1"
proof -
  let ?fs = "[Fmt_i, Fmt_i, Fmt_s 16, Fmt_b, Fmt_s 12]"
  have u: "unpack_fields ?fs s = fields_at ?fs 0 s"
    by (rule unpack_fields_whole) (simp add: assms calcsizes)
  have a: "le_int (take 4 (drop 0 s)) = sint_at s 0 4"
    and b: "le_int (take 4 (drop 4 s)) = sint_at s 4 4"
    and c: "le_int (take 1 (drop 24 s)) = sint_at s 24 1"
    by (rule le_int_at, simp add: assms, simp)+
  show "the_int (unpack_fields ?fs s ! 0) = sint_at s 0 4" unfolding u a[symmetric] by simp
  show "the_int (unpack_fields ?fs s ! 1) = sint_at s 4 4" unfolding u b[symmetric] by simp
  show "the_int (unpack_fields ?fs s ! 3) = sint_at s 24 1" unfolding u c[symmetric] by simp
qed

text \<open>The iteration over the sub-records of a block, in closed form.\<close>

lemma runInfo_records_filter:
  "runInfo_records its rec =
     rec @ map (\<lambda>i. \<lparr>ri_Time = of_int (the_int (i ! 0)) / 1000, ri_Timestamp = the_int (i ! 2),
                      ri_Step = the_int (i ! 3), ri_Index = the_int (i ! 4)\<rparr>)
               (filter (\<lambda>i. the_int (i ! 4) \<noteq> 0) its)"
  by (induction its arbitrary: rec) auto

lemma step_records_filter:
  assumes "\<forall>i\<in>set its. the_int (i ! 1) \<noteq> 0 \<longrightarrow> sd (the_int (i ! 3)) \<noteq> None"
  shows "step_records sd its rec =
     Inr (rec @ map (\<lambda>i. (the_int (i ! 0) + 1, the_int (i ! 1), the (sd (the_int (i ! 3)))))
                    (filter (\<lambda>i. the_int (i ! 1) \<noteq> 0) its))"
  using assms by (induction its arbitrary: rec) (auto simp: dict_get_def)

text \<open>The three bodies on a block whose payload is a whole number of sub-records.\<close>

lemma ndc_8_block_whole:
  assumes "(length b - 136) mod 8 = 0"
  shows "ndc_8_block f32 d b rec =
     Inr (rec @ map (\<lambda>s. (d (f32 (word_of_int (uint_at s 0 4))), f32 (word_of_int (uint_at s 4 4))))
                    (sub_records 8 4 b))"
proof -
  have "map (\<lambda>i. (d (f32 (the_float (i ! 0))), f32 (the_float (i ! 1))))
            (map (unpack_fields [Fmt_f, Fmt_f]) (sub_records 8 4 b))
      = map (\<lambda>s. (d (f32 (word_of_int (uint_at s 0 4))), f32 (word_of_int (uint_at s 4 4))))
            (sub_records 8 4 b)"
    unfolding map_map comp_def
  proof (rule map_cong[OF refl])
    fix x assume "x \<in> set (sub_records 8 4 b)"
    then have "length x = 8" by (rule sub_records_length)
    then show "(d (f32 (the_float (unpack_fields [Fmt_f, Fmt_f] x ! 0))),
                f32 (the_float (unpack_fields [Fmt_f, Fmt_f] x ! 1)))
             = (d (f32 (word_of_int (uint_at x 0 4))), f32 (word_of_int (uint_at x 4 4)))"
      by (simp only: unpack_main)
  qed
  then show ?thesis using assms by (simp add: ndc_8_block_cases chunks_payloads)
qed

lemma runInfo_block_whole:
  assumes "(length b - 195) mod 47 = 0"
  shows "runInfo_block b rec =
     Inr (rec @ map (\<lambda>s. \<lparr>ri_Time = of_int (sint_at s 0 4) / 1000, ri_Timestamp = sint_at s 33 4,
                           ri_Step = sint_at s 37 4, ri_Index = sint_at s 41 4\<rparr>)
                    (filter (\<lambda>s. sint_at s 41 4 \<noteq> 0) (sub_records 47 63 b)))"
proof -
  let ?fs = "[Fmt_i, Fmt_s 29, Fmt_i, Fmt_i, Fmt_i, Fmt_s 2]"
  have f: "filter (\<lambda>i. the_int (i ! 4) \<noteq> 0) (map (unpack_fields ?fs) (sub_records 47 63 b))
      = map (unpack_fields ?fs) (filter (\<lambda>s. sint_at s 41 4 \<noteq> 0) (sub_records 47 63 b))"
    unfolding filter_map comp_def
  proof (rule arg_cong[where f = "map (unpack_fields ?fs)"], rule filter_cong[OF refl])
    fix x assume "x \<in> set (sub_records 47 63 b)"
    then have "length x = 47" by (rule sub_records_length)
    then show "(the_int (unpack_fields ?fs x ! 4) \<noteq> 0) = (sint_at x 41 4 \<noteq> 0)"
      by (simp only: unpack_runInfo)
  qed
  have m: "map (\<lambda>i. \<lparr>ri_Time = of_int (the_int (i ! 0)) / 1000, ri_Timestamp = the_int (i ! 2),
                      ri_Step = the_int (i ! 3), ri_Index = the_int (i ! 4)\<rparr>)
               (map (unpack_fields ?fs) (filter (\<lambda>s. sint_at s 41 4 \<noteq> 0) (sub_records 47 63 b)))
      = map (\<lambda>s. \<lparr>ri_Time = of_int (sint_at s 0 4) / 1000, ri_Timestamp = sint_at s 33 4,
                           ri_Step = sint_at s 37 4, ri_Index = sint_at s 41 4\<rparr>)
                    (filter (\<lambda>s. sint_at s 41 4 \<noteq> 0) (sub_records 47 63 b))"
    unfolding map_map comp_def
  proof (rule map_cong[OF refl])
    fix x assume "x \<in> set (filter (\<lambda>s. sint_at s 41 4 \<noteq> 0) (sub_records 47 63 b))"
    then have "x \<in> set (sub_records 47 63 b)" by simp
    then have "length x = 47" by (rule sub_records_length)
    then show "\<lparr>ri_Time = of_int (the_int (unpack_fields ?fs x ! 0)) / 1000,
                ri_Timestamp = the_int (unpack_fields ?fs x ! 2),
                ri_Step = the_int (unpack_fields ?fs x ! 3),
                ri_Index = the_int (unpack_fields ?fs x ! 4)\<rparr>
             = \<lparr>ri_Time = of_int (sint_at x 0 4) / 1000, ri_Timestamp = sint_at x 33 4,
                ri_Step = sint_at x 37 4, ri_Index = sint_at x 41 4\<rparr>"
      by (simp only: unpack_runInfo)
  qed
  show ?thesis
    using assms unfolding runInfo_block_cases chunks_payloads runInfo_records_filter f m by simp
qed

lemma step_block_whole:
  assumes "(length b - 137) mod 37 = 0"
    and "\<forall>s\<in>set (sub_records 37 5 b). sint_at s 4 4 \<noteq> 0 \<longrightarrow> sd (sint_at s 24 1) \<noteq> None"
  shows "step_block sd b rec =
     Inr (rec @ map (\<lambda>s. (sint_at s 0 4 + 1, sint_at s 4 4, the (sd (sint_at s 24 1))))
                    (filter (\<lambda>s. sint_at s 4 4 \<noteq> 0) (sub_records 37 5 b)))"
proof -
  let ?fs = "[Fmt_i, Fmt_i, Fmt_s 16, Fmt_b, Fmt_s 12]"
  have ok: "\<forall>i\<in>set (map (unpack_fields ?fs) (sub_records 37 5 b)).
             the_int (i ! 1) \<noteq> 0 \<longrightarrow> sd (the_int (i ! 3)) \<noteq> None"
  proof
    fix i assume "i \<in> set (map (unpack_fields ?fs) (sub_records 37 5 b))"
    then obtain x where x: "x \<in> set (sub_records 37 5 b)" and i: "i = unpack_fields ?fs x"
      by (auto simp del: unpack_fields.simps)
    from x have l: "length x = 37" by (rule sub_records_length)
    from assms(2) x have "sint_at x 4 4 \<noteq> 0 \<longrightarrow> sd (sint_at x 24 1) \<noteq> None" by (rule bspec)
    then show "the_int (i ! 1) \<noteq> 0 \<longrightarrow> sd (the_int (i ! 3)) \<noteq> None"
      unfolding i by (simp only: unpack_step[OF l])
  qed
  have f: "filter (\<lambda>i. the_int (i ! 1) \<noteq> 0) (map (unpack_fields ?fs) (sub_records 37 5 b))
      = map (unpack_fields ?fs) (filter (\<lambda>s. sint_at s 4 4 \<noteq> 0) (sub_records 37 5 b))"
    unfolding filter_map comp_def
  proof (rule arg_cong[where f = "map (unpack_fields ?fs)"], rule filter_cong[OF refl])
    fix x assume "x \<in> set (sub_records 37 5 b)"
    then have "length x = 37" by (rule sub_records_length)
    then show "(the_int (unpack_fields ?fs x ! 1) \<noteq> 0) = (sint_at x 4 4 \<noteq> 0)"
      by (simp only: unpack_step)
  qed
  have m: "map (\<lambda>i. (the_int (i ! 0) + 1, the_int (i ! 1), the (sd (the_int (i ! 3)))))
               (map (unpack_fields ?fs) (filter (\<lambda>s. sint_at s 4 4 \<noteq> 0) (sub_records 37 5 b)))
      = map (\<lambda>s. (sint_at s 0 4 + 1, sint_at s 4 4, the (sd (sint_at s 24 1))))
                    (filter (\<lambda>s. sint_at s 4 4 \<noteq> 0) (sub_records 37 5 b))"
    unfolding map_map comp_def
  proof (rule map_cong[OF refl])
    fix x assume "x \<in> set (filter (\<lambda>s. sint_at s 4 4 \<noteq> 0) (sub_records 37 5 b))"
    then have "x \<in> set (sub_records 37 5 b)" by simp
    then have "length x = 37" by (rule sub_records_length)
    then show "(the_int (unpack_fields ?fs x ! 0) + 1, the_int (unpack_fields ?fs x ! 1),
                the (sd (the_int (unpack_fields ?fs x ! 3))))
             = (sint_at x 0 4 + 1, sint_at x 4 4, the (sd (sint_at x 24 1)))"
      by (simp only: unpack_step)
  qed
  show ?thesis
    using assms(1) unfolding step_block_cases chunks_payloads step_records_filter[OF ok] f m by simp
qed

lemma step_block_missing:
  assumes "(length b - 137) mod 37 = 0"
    and "s \<in> set (sub_records 37 5 b)" and "sint_at s 4 4 \<noteq> 0" and "sd (sint_at s 24 1) = None"
  shows "step_block sd b rec = Inl KeyError"
proof -
  let ?fs = "[Fmt_i, Fmt_i, Fmt_s 16, Fmt_b, Fmt_s 12]"
  have l: "length s = 37" using assms(2) by (rule sub_records_length)
  have "unpack_fields ?fs s \<in> set (map (unpack_fields ?fs) (sub_records 37 5 b))"
    using assms(2) by (simp del: unpack_fields.simps)
  moreover have "the_int (unpack_fields ?fs s ! 1) \<noteq> 0" unfolding unpack_step[OF l] by (rule assms(3))
  moreover have "sd (the_int (unpack_fields ?fs s ! 3)) = None" unfolding unpack_step[OF l] by (rule assms(4))
  ultimately have "step_records sd (map (unpack_fields ?fs) (sub_records 37 5 b)) rec = Inl KeyError"
    by (rule step_records_KeyError)
  then show ?thesis using assms(1) unfolding step_block_cases chunks_payloads by simp
qed


section \<open>The tables of the three scanners\<close>

lemma sub_records_in_all:
  assumes "b \<in> set (blocks_of mm)" and "s \<in> set (sub_records sz t b)"
  shows "s \<in> set (all_sub_records sz t mm)"
  using assms by (auto simp: all_sub_records_def)

lemma all_sub_records_block:
  assumes "s \<in> set (all_sub_records sz t mm)"
  shows "\<exists>k. k < (length mm - 4096 + 4095) div 4096 \<and>
             s \<in> set (sub_records sz t (take 4096 (drop (4096 + 4096 * k) mm)))"
proof -
  from assms obtain b where b: "b \<in> set (blocks_of mm)" and s: "s \<in> set (sub_records sz t b)"
    by (auto simp: all_sub_records_def)
  from b have "\<exists>k. k < (length mm - 4096 + 4095) div 4096 \<and>
      b = take 4096 (drop (4096 + 4096 * k) mm)"
    unfolding blocks_of_def set_map set_upt image_iff atLeastLessThan_iff Bex_def by blast
  with s show ?thesis by blast
qed

lemma block_index:
  assumes "k < (length mm - 4096 + 4095) div 4096"
  shows "4096 + 4096 * k < length mm"
    and "take 4096 (drop (4096 + 4096 * k) mm) \<in> set (blocks_of mm)"
proof -
  have "Suc k \<le> (length mm - 4096 + 4095) div 4096" using assms by simp
  then have "Suc k * 4096 \<le> length mm - 4096 + 4095"
    by (simp only: less_eq_div_iff_mult_less_eq zero_less_numeral)
  then show "4096 + 4096 * k < length mm" by simp
  have "k \<in> set [0 ..< (length mm - 4096 + 4095) div 4096]"
    unfolding set_upt atLeastLessThan_iff using assms by blast
  then show "take 4096 (drop (4096 + 4096 * k) mm) \<in> set (blocks_of mm)"
    unfolding blocks_of_def set_map by (rule imageI)
qed

lemma read_ndc_8_rows:
  assumes "4096 \<le> length mm" and "tail_payload 4 (length mm) mod 8 = 0"
  shows "read_blocks (ndc_8_block f32 d) mm =
     Inr (map (\<lambda>s. (d (f32 (word_of_int (uint_at s 0 4))), f32 (word_of_int (uint_at s 4 4))))
              (all_sub_records 8 4 mm))"
proof -
  let ?P = "\<lambda>s. (d (f32 (word_of_int (uint_at s 0 4))), f32 (word_of_int (uint_at s 4 4)))"
  have "read_blocks (ndc_8_block f32 d) mm =
      Inr (concat (map (\<lambda>b. map ?P (sub_records 8 4 b)) (blocks_of mm)))"
  proof (rule read_blocks_collect[OF assms(1)])
    fix b rec assume "b \<in> set (blocks_of mm)"
    from block_payload_whole[OF this _ assms(2)] have "(length b - 136) mod 8 = 0" by simp
    then show "ndc_8_block f32 d b rec = Inr (rec @ map ?P (sub_records 8 4 b))"
      by (rule ndc_8_block_whole)
  qed
  then show ?thesis by (simp add: all_sub_records_def map_concat comp_def)
qed

lemma read_runInfo_rows:
  assumes "4096 \<le> length mm" and "tail_payload 63 (length mm) mod 47 = 0"
  shows "read_blocks runInfo_block mm =
     Inr (map (\<lambda>s. \<lparr>ri_Time = of_int (sint_at s 0 4) / 1000, ri_Timestamp = sint_at s 33 4,
                     ri_Step = sint_at s 37 4, ri_Index = sint_at s 41 4\<rparr>)
              (kept_runInfo mm))"
proof -
  let ?R = "\<lambda>s. \<lparr>ri_Time = of_int (sint_at s 0 4) / 1000, ri_Timestamp = sint_at s 33 4,
                     ri_Step = sint_at s 37 4, ri_Index = sint_at s 41 4\<rparr>"
  have "read_blocks runInfo_block mm =
      Inr (concat (map (\<lambda>b. map ?R (filter (\<lambda>s. sint_at s 41 4 \<noteq> 0) (sub_records 47 63 b)))
                       (blocks_of mm)))"
  proof (rule read_blocks_collect[OF assms(1)])
    fix b rec assume "b \<in> set (blocks_of mm)"
    from block_payload_whole[OF this _ assms(2)] have "(length b - 195) mod 47 = 0" by simp
    then show "runInfo_block b rec =
        Inr (rec @ map ?R (filter (\<lambda>s. sint_at s 41 4 \<noteq> 0) (sub_records 47 63 b)))"
      by (rule runInfo_block_whole)
  qed
  then show ?thesis
    by (simp add: kept_runInfo_def all_sub_records_def map_concat filter_concat comp_def)
qed

lemma read_step_rows:
  assumes "4096 \<le> length mm" and "tail_payload 5 (length mm) mod 37 = 0"
    and "\<forall>s\<in>set (kept_step mm). sd (sint_at s 24 1) \<noteq> None"
  shows "read_blocks (step_block sd) mm =
     Inr (map (\<lambda>s. (sint_at s 0 4 + 1, sint_at s 4 4, the (sd (sint_at s 24 1)))) (kept_step mm))"
proof -
  let ?S = "\<lambda>s. (sint_at s 0 4 + 1, sint_at s 4 4, the (sd (sint_at s 24 1)))"
  have "read_blocks (step_block sd) mm =
      Inr (concat (map (\<lambda>b. map ?S (filter (\<lambda>s. sint_at s 4 4 \<noteq> 0) (sub_records 37 5 b)))
                       (blocks_of mm)))"
  proof (rule read_blocks_collect[OF assms(1)])
    fix b rec assume b: "b \<in> set (blocks_of mm)"
    from block_payload_whole[OF this _ assms(2)] have w: "(length b - 137) mod 37 = 0" by simp
    have "\<forall>s\<in>set (sub_records 37 5 b). sint_at s 4 4 \<noteq> 0 \<longrightarrow> sd (sint_at s 24 1) \<noteq> None"
    proof (intro ballI impI)
      fix s assume "s \<in> set (sub_records 37 5 b)" and n: "sint_at s 4 4 \<noteq> 0"
      with b have "s \<in> set (all_sub_records 37 5 mm)" by (intro sub_records_in_all)
      with n have "s \<in> set (kept_step mm)" by (simp add: kept_step_def)
      with assms(3) show "sd (sint_at s 24 1) \<noteq> None" by (rule bspec)
    qed
    with w show "step_block sd b rec =
        Inr (rec @ map ?S (filter (\<lambda>s. sint_at s 4 4 \<noteq> 0) (sub_records 37 5 b)))"
      by (rule step_block_whole)
  qed
  then show ?thesis
    by (simp add: kept_step_def all_sub_records_def map_concat filter_concat comp_def)
qed

lemma read_step_missing:
  assumes "4096 \<le> length mm" and "tail_payload 5 (length mm) mod 37 = 0"
    and "s \<in> set (kept_step mm)" and "sd (sint_at s 24 1) = None"
  shows "read_data_step_ndc8 sd mm = Inl KeyError"
proof -
  from assms(3) have a: "s \<in> set (all_sub_records 37 5 mm)" and n: "sint_at s 4 4 \<noteq> 0"
    by (simp_all add: kept_step_def)
  from all_sub_records_block[OF a] obtain k where k: "k < (length mm - 4096 + 4095) div 4096"
    and s: "s \<in> set (sub_records 37 5 (take 4096 (drop (4096 + 4096 * k) mm)))"
    by blast
  let ?p = "4096 + 4096 * k"
  note lt = block_index(1)[OF k] and mem = block_index(2)[OF k]
  from block_payload_whole[OF mem _ assms(2)]
  have w: "(length (take 4096 (drop ?p mm)) - 137) mod 37 = 0" by simp
  have bad: "\<And>rec. \<exists>e. step_block sd (take 4096 (drop ?p mm)) rec = Inl e \<and> e = KeyError"
    using step_block_missing[where sd = sd, OF w s n assms(4)] by simp
  have err: "\<And>b rec e. length b = 4096 \<Longrightarrow> step_block sd b rec = Inl e \<Longrightarrow> e = KeyError"
  proof -
    fix b rec e assume "length b = 4096" and "step_block sd b rec = Inl e"
    then show "e = KeyError"
      using step_records_result[of sd "map (unpack_fields [Fmt_i, Fmt_i, Fmt_s 16, Fmt_b, Fmt_s 12])
                                (chunks 37 (py_slice b 132 (- 5)))" rec]
      by (auto simp: step_block_cases)
  qed
  have al: "(?p - 4096) mod 4096 = 0" by simp
  have "\<exists>e. scan_blocks (step_block sd) mm 4096 [] = Inl e \<and> e = KeyError"
    using lt by (intro scan_blocks_block_fails[where p = ?p and body = "step_block sd" and mm = mm
          and pos = 4096 and E = "\<lambda>e. e = KeyError", OF bad err _ _ al]) simp_all
  then show ?thesis
    using assms(1) by (auto simp: read_data_step_ndc8_def read_blocks_def ebind_def)
qed


section \<open>The columns of the three tables\<close>

lemma read_ndc_8_columns:
  assumes "read_blocks (ndc_8_block f32 d) mm = Inr rec"
  shows "\<exists>df. read_ndc_8 f32 d mm = Inr df \<and> map s_Voltage df = map fst rec \<and>
           map s_Current df = map snd rec \<and> map s_Index df = [1..int (length rec)]"
proof -
  let ?df = "map (\<lambda>(k, vc). \<lparr>s_Voltage = fst vc, s_Current = snd vc, s_Index = int k + 1\<rparr>)
                 (enumerate 0 rec)"
  have r: "read_ndc_8 f32 d mm = Inr ?df" by (simp add: read_ndc_8_def assms ebind_def)
  have v: "map s_Voltage ?df = map fst rec"
    by (rule nth_equalityI) (simp_all add: nth_enumerate_eq)
  have c: "map s_Current ?df = map snd rec"
    by (rule nth_equalityI) (simp_all add: nth_enumerate_eq)
  have "map s_Index ?df = map (\<lambda>k. int k + 1) [0..<length rec]"
    by (rule nth_equalityI) (simp_all add: nth_enumerate_eq)
  then have i: "map s_Index ?df = [1..int (length rec)]" by (simp add: map_Suc_upto)
  from r v c i show ?thesis by blast
qed

lemma set_Step_columns:
  assumes "length steps = length df"
  shows "map ri_Time (set_Step df steps) = map ri_Time df"
    and "map ri_Timestamp (set_Step df steps) = map ri_Timestamp df"
    and "map ri_Index (set_Step df steps) = map ri_Index df"
  using assms by (auto simp: set_Step_def intro!: nth_equalityI)

lemma read_step_columns:
  assumes "read_blocks (step_block sd) mm = Inr rec"
  shows "\<exists>df. read_data_step_ndc8 sd mm = Inr df \<and> map st_Cycle df = map fst rec \<and>
           map st_Step_Index df = map (\<lambda>x. fst (snd x)) rec \<and>
           map st_Status df = map (\<lambda>x. snd (snd x)) rec \<and>
           map st_Step df = [1..int (length rec)]"
proof -
  let ?df = "map (\<lambda>(k, c, x, s). \<lparr>st_Cycle = c, st_Step_Index = x, st_Status = s, st_Step = int k + 1\<rparr>)
                 (enumerate 0 rec)"
  have r: "read_data_step_ndc8 sd mm = Inr ?df"
    by (simp add: read_data_step_ndc8_def assms ebind_def)
  have a: "map st_Cycle ?df = map fst rec"
    by (rule nth_equalityI) (simp_all add: nth_enumerate_eq case_prod_unfold)
  have b: "map st_Step_Index ?df = map (\<lambda>x. fst (snd x)) rec"
    by (rule nth_equalityI) (simp_all add: nth_enumerate_eq case_prod_unfold)
  have c: "map st_Status ?df = map (\<lambda>x. snd (snd x)) rec"
    by (rule nth_equalityI) (simp_all add: nth_enumerate_eq case_prod_unfold)
  have "map st_Step ?df = map (\<lambda>k. int k + 1) [0..<length rec]"
    by (rule nth_equalityI) (simp_all add: nth_enumerate_eq case_prod_unfold)
  then have i: "map st_Step ?df = [1..int (length rec)]" by (simp add: map_Suc_upto)
  from r a b c i show ?thesis by blast
qed

lemma read_ndc_8_whole:
  assumes "4096 \<le> length mm" and "tail_payload 4 (length mm) mod 8 = 0"
  shows "\<exists>df. read_ndc_8 f32 d mm = Inr df \<and>
           length df = 495 * full_blocks (length mm) + tail_payload 4 (length mm) div 8 \<and>
           map s_Voltage df = map (\<lambda>s. d (f32 (word_of_int (uint_at s 0 4)))) (all_sub_records 8 4 mm) \<and>
           map s_Current df = map (\<lambda>s. f32 (word_of_int (uint_at s 4 4))) (all_sub_records 8 4 mm) \<and>
           map s_Index df = [1..int (length (all_sub_records 8 4 mm))]"
proof -
  from read_ndc_8_columns[OF read_ndc_8_rows[OF assms, of f32 d]]
  obtain df where df: "read_ndc_8 f32 d mm = Inr df"
    and v: "map s_Voltage df = map (\<lambda>s. d (f32 (word_of_int (uint_at s 0 4)))) (all_sub_records 8 4 mm)"
    and c: "map s_Current df = map (\<lambda>s. f32 (word_of_int (uint_at s 4 4))) (all_sub_records 8 4 mm)"
    and i: "map s_Index df = [1..int (length (all_sub_records 8 4 mm))]"
    by (auto simp: comp_def)
  from read_ndc_8_tail(2)[OF assms, of f32 d] df
  have "length df = 495 * full_blocks (length mm) + tail_payload 4 (length mm) div 8" by auto
  with df v c i show ?thesis by blast
qed

lemma read_runInfo_whole:
  assumes "4096 \<le> length mm" and "tail_payload 63 (length mm) mod 47 = 0"
  shows "\<exists>df. read_data_runInfo_ndc8 mm = Inr df \<and>
           length df \<le> 83 * full_blocks (length mm) + tail_payload 63 (length mm) div 47 \<and>
           map ri_Time df = map (\<lambda>s. of_int (sint_at s 0 4) / 1000) (kept_runInfo mm) \<and>
           map ri_Timestamp df = map (\<lambda>s. sint_at s 33 4) (kept_runInfo mm) \<and>
           map ri_Index df = map (\<lambda>s. sint_at s 41 4) (kept_runInfo mm)"
proof -
  let ?rec = "map (\<lambda>s. \<lparr>ri_Time = of_int (sint_at s 0 4) / 1000, ri_Timestamp = sint_at s 33 4,
                     ri_Step = sint_at s 37 4, ri_Index = sint_at s 41 4\<rparr>) (kept_runInfo mm)"
  let ?df = "set_Step ?rec (count_changes (map ri_Step ?rec))"
  have df: "read_data_runInfo_ndc8 mm = Inr ?df"
    by (simp add: read_data_runInfo_ndc8_def read_runInfo_rows[OF assms] ebind_def)
  have l: "length (count_changes (map ri_Step ?rec)) = length ?rec"
    by (simp add: length_count_changes)
  have a: "map ri_Time ?df = map (\<lambda>s. of_int (sint_at s 0 4) / 1000) (kept_runInfo mm)"
    unfolding set_Step_columns(1)[OF l] by (simp add: comp_def)
  have b: "map ri_Timestamp ?df = map (\<lambda>s. sint_at s 33 4) (kept_runInfo mm)"
    unfolding set_Step_columns(2)[OF l] by (simp add: comp_def)
  have c: "map ri_Index ?df = map (\<lambda>s. sint_at s 41 4) (kept_runInfo mm)"
    unfolding set_Step_columns(3)[OF l] by (simp add: comp_def)
  from read_data_runInfo_ndc8_tail(2)[OF assms] df
  have "length ?df \<le> 83 * full_blocks (length mm) + tail_payload 63 (length mm) div 47" by auto
  with df a b c show ?thesis by blast
qed

lemma read_step_whole:
  assumes "4096 \<le> length mm" and "tail_payload 5 (length mm) mod 37 = 0"
    and "\<forall>s\<in>set (kept_step mm). sd (sint_at s 24 1) \<noteq> None"
  shows "\<exists>df. read_data_step_ndc8 sd mm = Inr df \<and>
           map st_Cycle df = map (\<lambda>s. sint_at s 0 4 + 1) (kept_step mm) \<and>
           map st_Step_Index df = map (\<lambda>s. sint_at s 4 4) (kept_step mm) \<and>
           map (\<lambda>r. Some (st_Status r)) df = map (\<lambda>s. sd (sint_at s 24 1)) (kept_step mm) \<and>
           map st_Step df = [1..int (length (kept_step mm))]"
proof -
  from read_step_columns[OF read_step_rows[OF assms]]
  obtain df where df: "read_data_step_ndc8 sd mm = Inr df"
    and a: "map st_Cycle df = map (\<lambda>s. sint_at s 0 4 + 1) (kept_step mm)"
    and b: "map st_Step_Index df = map (\<lambda>s. sint_at s 4 4) (kept_step mm)"
    and c: "map st_Status df = map (\<lambda>s. the (sd (sint_at s 24 1))) (kept_step mm)"
    and i: "map st_Step df = [1..int (length (kept_step mm))]"
    by (auto simp: comp_def)
  have "map (\<lambda>r. Some (st_Status r)) df = map Some (map st_Status df)" by (simp add: comp_def)
  also have "\<dots> = map (\<lambda>s. Some (the (sd (sint_at s 24 1)))) (kept_step mm)"
    unfolding c by (simp add: comp_def)
  also have "\<dots> = map (\<lambda>s. sd (sint_at s 24 1)) (kept_step mm)"
    using assms(3) by (intro map_cong[OF refl]) auto
  finally have "map (\<lambda>r. Some (st_Status r)) df = map (\<lambda>s. sd (sint_at s 24 1)) (kept_step mm)" .
  with df a b i show ?thesis by blast
qed


section \<open>Whole sub-records of short trailing blocks\<close>

text \<open>
  C9, amended. On a buffer that holds the 4096-byte header, each of the three scanners
  decodes whole sub-records only: sub-record \<open>j\<close> of a block is the \<open>sz\<close> bytes from offset
  \<open>132 + sz * j\<close> of the block, which end within the payload, \<open>t\<close> bytes or more before the
  end of the block. When the payload of the shorter trailing block is a multiple of the
  sub-record size of 8, 47 or 37 bytes, which includes the empty payload of a block too
  short to hold one, the scan returns its table, and its rows are the whole sub-records of
  all blocks in block order: the main-sample table has a row for each of them, with the two
  floats at the offsets 0 and 4 and the Index counting from 1; the run-info table has a row
  for each of them whose index at offset 41 is not zero, with the time at offset 0, the
  timestamp at offset 33 and the index at offset 41; the step table has a row for each of
  them whose step index at offset 4 is not zero, with the cycle at offset 0 plus one, the
  step index, the state of the status code at offset 24 and the Step counting from 1,
  provided the status code of every such sub-record is in the state table, and the scan
  raises \<open>KeyError\<close> if one of them is not. When the payload of the trailing block is not
  such a multiple, the main-sample and run-info scans raise \<open>struct.error\<close> and the step
  scan raises \<open>struct.error\<close> or \<open>KeyError\<close>.
\<close>

theorem short_block_whole_records:
  assumes "4096 \<le> length mm"
  shows
   "(\<forall>b\<in>set (blocks_of mm). \<forall>j<length (sub_records sz t b).
        sub_records sz t b ! j = take sz (drop (132 + sz * j) b) \<and>
        length (sub_records sz t b ! j) = sz \<and> 132 + sz * j + sz + t \<le> length b) \<and>
    (tail_payload 4 (length mm) mod 8 \<noteq> 0 \<longrightarrow> read_ndc_8 f32 d mm = Inl StructError) \<and>
    (tail_payload 4 (length mm) mod 8 = 0 \<longrightarrow>
       (\<exists>df. read_ndc_8 f32 d mm = Inr df \<and>
             length df = 495 * full_blocks (length mm) + tail_payload 4 (length mm) div 8 \<and>
             map s_Voltage df =
               map (\<lambda>s. d (f32 (word_of_int (uint_at s 0 4)))) (all_sub_records 8 4 mm) \<and>
             map s_Current df =
               map (\<lambda>s. f32 (word_of_int (uint_at s 4 4))) (all_sub_records 8 4 mm) \<and>
             map s_Index df = [1..int (length (all_sub_records 8 4 mm))])) \<and>
    (tail_payload 63 (length mm) mod 47 \<noteq> 0 \<longrightarrow> read_data_runInfo_ndc8 mm = Inl StructError) \<and>
    (tail_payload 63 (length mm) mod 47 = 0 \<longrightarrow>
       read_blocks runInfo_block mm =
         Inr (map (\<lambda>s. \<lparr>ri_Time = of_int (sint_at s 0 4) / 1000, ri_Timestamp = sint_at s 33 4,
                         ri_Step = sint_at s 37 4, ri_Index = sint_at s 41 4\<rparr>)
                  (kept_runInfo mm)) \<and>
       (\<exists>df. read_data_runInfo_ndc8 mm = Inr df \<and>
             length df \<le> 83 * full_blocks (length mm) + tail_payload 63 (length mm) div 47 \<and>
             map ri_Time df = map (\<lambda>s. of_int (sint_at s 0 4) / 1000) (kept_runInfo mm) \<and>
             map ri_Timestamp df = map (\<lambda>s. sint_at s 33 4) (kept_runInfo mm) \<and>
             map ri_Index df = map (\<lambda>s. sint_at s 41 4) (kept_runInfo mm))) \<and>
    (tail_payload 5 (length mm) mod 37 \<noteq> 0 \<longrightarrow>
       read_data_step_ndc8 sd mm = Inl StructError \<or> read_data_step_ndc8 sd mm = Inl KeyError) \<and>
    (tail_payload 5 (length mm) mod 37 = 0 \<and>
     (\<forall>s\<in>set (kept_step mm). sd (sint_at s 24 1) \<noteq> None) \<longrightarrow>
       (\<exists>df. read_data_step_ndc8 sd mm = Inr df \<and>
             map st_Cycle df = map (\<lambda>s. sint_at s 0 4 + 1) (kept_step mm) \<and>
             map st_Step_Index df = map (\<lambda>s. sint_at s 4 4) (kept_step mm) \<and>
             map (\<lambda>r. Some (st_Status r)) df = map (\<lambda>s. sd (sint_at s 24 1)) (kept_step mm) \<and>
             map st_Step df = [1..int (length (kept_step mm))])) \<and>
    (tail_payload 5 (length mm) mod 37 = 0 \<and>
     (\<exists>s\<in>set (kept_step mm). sd (sint_at s 24 1) = None) \<longrightarrow>
       read_data_step_ndc8 sd mm = Inl KeyError) \<and>
    (\<forall>df. read_data_step_ndc8 sd mm = Inr df \<longrightarrow>
       length df \<le> 107 * full_blocks (length mm) + tail_payload 5 (length mm) div 37)"
proof (intro conjI impI allI ballI)
  fix b j assume "j < length (sub_records sz t b)"
  then show "sub_records sz t b ! j = take sz (drop (132 + sz * j) b)"
    and "length (sub_records sz t b ! j) = sz" and "132 + sz * j + sz + t \<le> length b"
    by (rule sub_records_whole)+
next
  assume "tail_payload 4 (length mm) mod 8 \<noteq> 0"
  then show "read_ndc_8 f32 d mm = Inl StructError" by (rule read_ndc_8_tail(1)[OF assms])
next
  assume "tail_payload 4 (length mm) mod 8 = 0"
  then show "\<exists>df. read_ndc_8 f32 d mm = Inr df \<and>
             length df = 495 * full_blocks (length mm) + tail_payload 4 (length mm) div 8 \<and>
             map s_Voltage df =
               map (\<lambda>s. d (f32 (word_of_int (uint_at s 0 4)))) (all_sub_records 8 4 mm) \<and>
             map s_Current df =
               map (\<lambda>s. f32 (word_of_int (uint_at s 4 4))) (all_sub_records 8 4 mm) \<and>
             map s_Index df = [1..int (length (all_sub_records 8 4 mm))]"
    by (rule read_ndc_8_whole[OF assms])
next
  assume "tail_payload 63 (length mm) mod 47 \<noteq> 0"
  then show "read_data_runInfo_ndc8 mm = Inl StructError"
    by (rule read_data_runInfo_ndc8_tail(1)[OF assms])
next
  assume "tail_payload 63 (length mm) mod 47 = 0"
  then show "read_blocks runInfo_block mm =
         Inr (map (\<lambda>s. \<lparr>ri_Time = of_int (sint_at s 0 4) / 1000, ri_Timestamp = sint_at s 33 4,
                         ri_Step = sint_at s 37 4, ri_Index = sint_at s 41 4\<rparr>)
                  (kept_runInfo mm))"
    by (rule read_runInfo_rows[OF assms])
next
  assume "tail_payload 63 (length mm) mod 47 = 0"
  then show "\<exists>df. read_data_runInfo_ndc8 mm = Inr df \<and>
             length df \<le> 83 * full_blocks (length mm) + tail_payload 63 (length mm) div 47 \<and>
             map ri_Time df = map (\<lambda>s. of_int (sint_at s 0 4) / 1000) (kept_runInfo mm) \<and>
             map ri_Timestamp df = map (\<lambda>s. sint_at s 33 4) (kept_runInfo mm) \<and>
             map ri_Index df = map (\<lambda>s. sint_at s 41 4) (kept_runInfo mm)"
    by (rule read_runInfo_whole[OF assms])
next
  assume "tail_payload 5 (length mm) mod 37 \<noteq> 0"
  then show "read_data_step_ndc8 sd mm = Inl StructError \<or> read_data_step_ndc8 sd mm = Inl KeyError"
    by (rule read_data_step_ndc8_tail(1)[OF assms])
next
  assume "tail_payload 5 (length mm) mod 37 = 0 \<and>
     (\<forall>s\<in>set (kept_step mm). sd (sint_at s 24 1) \<noteq> None)"
  then have w: "tail_payload 5 (length mm) mod 37 = 0"
    and ok: "\<forall>s\<in>set (kept_step mm). sd (sint_at s 24 1) \<noteq> None" by blast+
  show "\<exists>df. read_data_step_ndc8 sd mm = Inr df \<and>
             map st_Cycle df = map (\<lambda>s. sint_at s 0 4 + 1) (kept_step mm) \<and>
             map st_Step_Index df = map (\<lambda>s. sint_at s 4 4) (kept_step mm) \<and>
             map (\<lambda>r. Some (st_Status r)) df = map (\<lambda>s. sd (sint_at s 24 1)) (kept_step mm) \<and>
             map st_Step df = [1..int (length (kept_step mm))]"
    by (rule read_step_whole[OF assms w ok])
next
  assume "tail_payload 5 (length mm) mod 37 = 0 \<and>
     (\<exists>s\<in>set (kept_step mm). sd (sint_at s 24 1) = None)"
  then have w: "tail_payload 5 (length mm) mod 37 = 0"
    and ex: "\<exists>s\<in>set (kept_step mm). sd (sint_at s 24 1) = None" by simp_all
  from ex obtain s where s: "s \<in> set (kept_step mm)" and n: "sd (sint_at s 24 1) = None"
    by (rule bexE)
  show "read_data_step_ndc8 sd mm = Inl KeyError"
    by (rule read_step_missing[where sd = sd, OF assms w s n])
next
  fix df assume "read_data_step_ndc8 sd mm = Inr df"
  then show "length df \<le> 107 * full_blocks (length mm) + tail_payload 5 (length mm) div 37"
    by (rule read_data_step_ndc8_tail(2)[OF assms])
qed


section \<open>The short-block examples\<close>

lemma blocks_of_single:
  assumes "4096 < length mm" and "length mm \<le> 8192"
  shows "blocks_of mm = [drop 4096 mm]"
proof -
  have n: "(length mm - 4096 + 4095) div 4096 = 1" using assms by linarith
  have "take 4096 (drop 4096 mm) = drop 4096 mm" using assms by simp
  then show ?thesis unfolding blocks_of_def n by simp
qed

lemma ex_lengths:
  "length ex_tail = 4240" "length ex_short = 4233" "length ex_runInfo = 4573"
  "length ex_step = 4270" "length ex_step_ok = 4307"
  by (simp_all add: ex_tail_def ex_short_def ex_runInfo_def ex_runInfo_rec_def ex_step_def
      ex_step_rec_def ex_step_ok_def ex_step_ok_rec_def)

lemma ex_tail_subs: "all_sub_records 8 4 ex_tail = [replicate 8 0]"
proof -
  have b: "blocks_of ex_tail = [replicate 144 0]"
    by (subst blocks_of_single) (simp_all add: ex_lengths, simp add: ex_tail_def)
  show ?thesis unfolding all_sub_records_def b by (simp add: sub_records_def)
qed

lemma ex_runInfo_kept:
  "kept_runInfo ex_runInfo =
     [ex_runInfo_rec 5 1, ex_runInfo_rec 5 2, ex_runInfo_rec 5 3,
      ex_runInfo_rec 7 4, ex_runInfo_rec 7 5, ex_runInfo_rec 9 6]"
proof -
  have d: "drop 4096 ex_runInfo = take 4096 (drop 4096 ex_runInfo)" by (simp add: ex_lengths)
  have b: "blocks_of ex_runInfo = [take 4096 (drop 4096 ex_runInfo)]"
    by (subst blocks_of_single) (simp_all add: ex_lengths)
  have s: "sub_records 47 63 (take 4096 (drop 4096 ex_runInfo)) =
     [ex_runInfo_rec 5 1, ex_runInfo_rec 5 2, ex_runInfo_rec 5 3,
      ex_runInfo_rec 7 4, ex_runInfo_rec 7 5, ex_runInfo_rec 9 6]"
    unfolding chunks_payloads(2)[symmetric] ex_runInfo_payload ex_runInfo_chunks ..
  have i: "sint_at (ex_runInfo_rec a c) 41 4 = uint c" for a c :: byte
  proof -
    have "uint c < 2147483648" using uint_lt2p[of c] by simp
    then show ?thesis
      by (simp add: sint_at_def uint_at_unfold ex_runInfo_rec_def nth_append)
  qed
  show ?thesis unfolding kept_runInfo_def all_sub_records_def b by (simp add: s i)
qed

lemma ex_runInfo_rec_fields:
  fixes a c :: byte
  shows "sint_at (ex_runInfo_rec a c) 0 4 = 0" "sint_at (ex_runInfo_rec a c) 33 4 = 0"
    "sint_at (ex_runInfo_rec a c) 37 4 = uint a" "sint_at (ex_runInfo_rec a c) 41 4 = uint c"
proof -
  have "uint a < 2147483648" "uint c < 2147483648"
    using uint_lt2p[of a] uint_lt2p[of c] by simp_all
  then show "sint_at (ex_runInfo_rec a c) 0 4 = 0" "sint_at (ex_runInfo_rec a c) 33 4 = 0"
    "sint_at (ex_runInfo_rec a c) 37 4 = uint a" "sint_at (ex_runInfo_rec a c) 41 4 = uint c"
    by (simp_all add: sint_at_def uint_at_unfold ex_runInfo_rec_def nth_append)
qed

lemma ex_step_ok_rec_fields:
  "length ex_step_ok_rec = 37" "sint_at ex_step_ok_rec 0 4 = 0" "sint_at ex_step_ok_rec 4 4 = 1"
  "sint_at ex_step_ok_rec 24 1 = 1" "sint_at ex_step_ok_rec 24 (Suc 0) = 1"
  "sint_at (replicate 37 0) 4 4 = 0"
  by (simp_all add: sint_at_def uint_at_unfold ex_step_ok_rec_def nth_append)

lemma ex_step_rec_fields:
  "sint_at ex_step_rec 0 4 = 0" "sint_at ex_step_rec 4 4 = 1" "sint_at ex_step_rec 24 1 = 7"
  "sint_at ex_step_rec 24 (Suc 0) = 7"
  by (simp_all add: sint_at_def uint_at_unfold ex_step_rec_def nth_append)

lemma ex_step_ok_kept: "kept_step ex_step_ok = [ex_step_ok_rec]"
proof -
  have b: "blocks_of ex_step_ok = [replicate 132 0 @ ex_step_ok_rec @ replicate 37 0 @ replicate 5 0]"
    by (subst blocks_of_single) (simp_all add: ex_lengths, simp add: ex_step_ok_def)
  have s: "sub_records 37 5 (replicate 132 0 @ ex_step_ok_rec @ replicate 37 0 @ replicate 5 0)
      = [ex_step_ok_rec, replicate 37 0]"
    by (simp add: sub_records_def ex_step_ok_rec_fields(1) upt_rec[of _ "numeral _"] upt_rec[of _ "Suc _"])
  show ?thesis unfolding kept_step_def all_sub_records_def b
    by (simp add: s ex_step_ok_rec_fields)
qed

lemma ex_step_kept: "kept_step ex_step = [ex_step_rec]"
proof -
  have b: "blocks_of ex_step = [replicate 132 0 @ ex_step_rec @ replicate 5 0]"
    by (subst blocks_of_single) (simp_all add: ex_lengths, simp add: ex_step_def)
  have s: "sub_records 37 5 (replicate 132 0 @ ex_step_rec @ replicate 5 0) = [ex_step_rec]"
    by (simp add: sub_records_def ex_step_rec_len)
  show ?thesis unfolding kept_step_def all_sub_records_def b
    by (simp add: s ex_step_rec_fields)
qed

theorem short_block_whole_records_witness:
  "4096 \<le> length ex_tail \<and> tail_payload 4 (length ex_tail) mod 8 = 0 \<and>
   all_sub_records 8 4 ex_tail = [replicate 8 0] \<and>
   (\<exists>df. read_ndc_8 (\<lambda>w. w) (\<lambda>v. v) ex_tail = Inr df \<and> length df = 1 \<and>
      map s_Voltage df = [0] \<and> map s_Current df = [0] \<and> map s_Index df = [1]) \<and>
   tail_payload 63 (length ex_tail) mod 47 = 0 \<and>
   (\<exists>df. read_data_runInfo_ndc8 ex_tail = Inr df \<and> length df = 0) \<and>
   tail_payload 5 (length ex_tail) mod 37 \<noteq> 0 \<and>
   (read_data_step_ndc8 ex_sd ex_tail = Inl StructError \<or>
    read_data_step_ndc8 ex_sd ex_tail = Inl KeyError) \<and>
   4096 \<le> length ex_short \<and> tail_payload 4 (length ex_short) mod 8 \<noteq> 0 \<and>
   read_ndc_8 (\<lambda>w. w) (\<lambda>v. v) ex_short = Inl StructError \<and>
   4096 \<le> length ex_runInfo \<and> tail_payload 63 (length ex_runInfo) mod 47 = 0 \<and>
   length (kept_runInfo ex_runInfo) = 6 \<and>
   (\<exists>df. read_data_runInfo_ndc8 ex_runInfo = Inr df \<and> map ri_Index df = [1, 2, 3, 4, 5, 6] \<and>
      map ri_Time df = [0, 0, 0, 0, 0, 0] \<and> map ri_Timestamp df = [0, 0, 0, 0, 0, 0]) \<and>
   4096 \<le> length ex_step_ok \<and> tail_payload 5 (length ex_step_ok) mod 37 = 0 \<and>
   kept_step ex_step_ok = [ex_step_ok_rec] \<and>
   (\<exists>df. read_data_step_ndc8 ex_sd ex_step_ok = Inr df \<and> map st_Cycle df = [1] \<and>
      map st_Step_Index df = [1] \<and> map st_Status df = [''CC_Chg''] \<and> map st_Step df = [1]) \<and>
   4096 \<le> length ex_step \<and> tail_payload 5 (length ex_step) mod 37 = 0 \<and>
   kept_step ex_step = [ex_step_rec] \<and> ex_sd (sint_at ex_step_rec 24 1) = None \<and>
   read_data_step_ndc8 ex_sd ex_step = Inl KeyError"
proof -
  have g: "4096 \<le> length ex_tail" "4096 \<le> length ex_short" "4096 \<le> length ex_runInfo"
    "4096 \<le> length ex_step_ok" "4096 \<le> length ex_step"
    by (simp_all add: ex_lengths)
  have t: "tail_payload 4 (length ex_tail) mod 8 = 0" "tail_payload 63 (length ex_tail) mod 47 = 0"
    "tail_payload 5 (length ex_tail) mod 37 \<noteq> 0" "tail_payload 4 (length ex_short) mod 8 \<noteq> 0"
    "tail_payload 63 (length ex_runInfo) mod 47 = 0" "tail_payload 5 (length ex_step_ok) mod 37 = 0"
    "tail_payload 5 (length ex_step) mod 37 = 0"
    by (simp_all add: ex_lengths tail_payload_def)
  note T = short_block_whole_records[of _ 8 4 "\<lambda>w. w" "\<lambda>v. v" ex_sd]
  have n: "ex_sd (sint_at ex_step_rec 24 1) = None"
    unfolding ex_step_rec_fields by (simp add: ex_sd_def)
  have a: "\<exists>df. read_ndc_8 (\<lambda>w. w) (\<lambda>v. v) ex_tail = Inr df \<and> length df = 1 \<and>
      map s_Voltage df = [0] \<and> map s_Current df = [0] \<and> map s_Index df = [1]"
  proof -
    from T[OF g(1), THEN conjunct2, THEN conjunct2, THEN conjunct1, rule_format, OF t(1)]
    obtain df where df: "read_ndc_8 (\<lambda>w. w) (\<lambda>v. v) ex_tail = Inr df"
      and l: "length df = 495 * full_blocks (length ex_tail) + tail_payload 4 (length ex_tail) div 8"
      and v: "map s_Voltage df = map (\<lambda>s. word_of_int (uint_at s 0 4)) (all_sub_records 8 4 ex_tail)"
      and c: "map s_Current df = map (\<lambda>s. word_of_int (uint_at s 4 4)) (all_sub_records 8 4 ex_tail)"
      and i: "map s_Index df = [1..int (length (all_sub_records 8 4 ex_tail))]"
      by blast
    have r1: "length df = 1" unfolding l ex_lengths by (simp add: tail_payload_def full_blocks_def)
    have r2: "map s_Voltage df = [0]" unfolding v ex_tail_subs by (simp add: uint_at_unfold)
    have r3: "map s_Current df = [0]" unfolding c ex_tail_subs by (simp add: uint_at_unfold)
    have r4: "map s_Index df = [1]" unfolding i ex_tail_subs by simp
    show ?thesis by (rule exI[of _ df]) (simp only: df r1 r2 r3 r4 simp_thms)
  qed
  have b: "\<exists>df. read_data_runInfo_ndc8 ex_tail = Inr df \<and> length df = 0"
  proof -
    from T[OF g(1), THEN conjunct2, THEN conjunct2, THEN conjunct2, THEN conjunct2, THEN conjunct1,
        rule_format, OF t(2)]
    obtain df where df: "read_data_runInfo_ndc8 ex_tail = Inr df"
      and l: "length df \<le> 83 * full_blocks (length ex_tail) + tail_payload 63 (length ex_tail) div 47"
      by blast
    have r1: "length df = 0" using l unfolding ex_lengths by (simp add: tail_payload_def full_blocks_def)
    show ?thesis by (rule exI[of _ df]) (simp only: df r1 simp_thms)
  qed
  have c: "read_data_step_ndc8 ex_sd ex_tail = Inl StructError \<or>
    read_data_step_ndc8 ex_sd ex_tail = Inl KeyError"
    by (rule T[OF g(1), THEN conjunct2, THEN conjunct2, THEN conjunct2, THEN conjunct2, THEN conjunct2,
        THEN conjunct1, rule_format, OF t(3)])
  have d: "read_ndc_8 (\<lambda>w. w) (\<lambda>v. v) ex_short = Inl StructError"
    by (rule T[OF g(2), THEN conjunct2, THEN conjunct1, rule_format, OF t(4)])
  have e: "\<exists>df. read_data_runInfo_ndc8 ex_runInfo = Inr df \<and> map ri_Index df = [1, 2, 3, 4, 5, 6] \<and>
      map ri_Time df = [0, 0, 0, 0, 0, 0] \<and> map ri_Timestamp df = [0, 0, 0, 0, 0, 0]"
  proof -
    from T[OF g(3), THEN conjunct2, THEN conjunct2, THEN conjunct2, THEN conjunct2, THEN conjunct1,
        rule_format, OF t(5)]
    obtain df where df: "read_data_runInfo_ndc8 ex_runInfo = Inr df"
      and x: "map ri_Time df = map (\<lambda>s. of_int (sint_at s 0 4) / 1000) (kept_runInfo ex_runInfo)"
      and y: "map ri_Timestamp df = map (\<lambda>s. sint_at s 33 4) (kept_runInfo ex_runInfo)"
      and z: "map ri_Index df = map (\<lambda>s. sint_at s 41 4) (kept_runInfo ex_runInfo)"
      by blast
    have r1: "map ri_Index df = [1, 2, 3, 4, 5, 6]"
      unfolding z ex_runInfo_kept by (simp add: ex_runInfo_rec_fields)
    have r2: "map ri_Time df = [0, 0, 0, 0, 0, 0]"
      unfolding x ex_runInfo_kept by (simp add: ex_runInfo_rec_fields)
    have r3: "map ri_Timestamp df = [0, 0, 0, 0, 0, 0]"
      unfolding y ex_runInfo_kept by (simp add: ex_runInfo_rec_fields)
    show ?thesis by (rule exI[of _ df]) (simp only: df r1 r2 r3 simp_thms)
  qed
  have f: "\<exists>df. read_data_step_ndc8 ex_sd ex_step_ok = Inr df \<and> map st_Cycle df = [1] \<and>
      map st_Step_Index df = [1] \<and> map st_Status df = [''CC_Chg''] \<and> map st_Step df = [1]"
  proof -
    have ok: "\<forall>s\<in>set (kept_step ex_step_ok). ex_sd (sint_at s 24 1) \<noteq> None"
      unfolding ex_step_ok_kept by (simp add: ex_step_ok_rec_fields ex_sd_def)
    from T[OF g(4), THEN conjunct2, THEN conjunct2, THEN conjunct2, THEN conjunct2, THEN conjunct2,
        THEN conjunct2, THEN conjunct1, rule_format, OF conjI[OF t(6) ok]]
    obtain df where df: "read_data_step_ndc8 ex_sd ex_step_ok = Inr df"
      and x: "map st_Cycle df = map (\<lambda>s. sint_at s 0 4 + 1) (kept_step ex_step_ok)"
      and y: "map st_Step_Index df = map (\<lambda>s. sint_at s 4 4) (kept_step ex_step_ok)"
      and z: "map (\<lambda>r. Some (st_Status r)) df = map (\<lambda>s. ex_sd (sint_at s 24 1)) (kept_step ex_step_ok)"
      and i: "map st_Step df = [1..int (length (kept_step ex_step_ok))]"
      by blast
    have r1: "map st_Cycle df = [1]" unfolding x ex_step_ok_kept by (simp add: ex_step_ok_rec_fields)
    have r2: "map st_Step_Index df = [1]"
      unfolding y ex_step_ok_kept by (simp add: ex_step_ok_rec_fields)
    have "map (\<lambda>r. Some (st_Status r)) df = [Some ''CC_Chg'']"
      unfolding z ex_step_ok_kept by (simp add: ex_step_ok_rec_fields ex_sd_def)
    then have "map Some (map st_Status df) = map Some [''CC_Chg'']" by (simp add: comp_def)
    then have r3: "map st_Status df = [''CC_Chg'']" by (simp only: inj_map_eq_map[OF inj_Some])
    have r4: "map st_Step df = [1]" unfolding i ex_step_ok_kept by simp
    show ?thesis by (rule exI[of _ df]) (simp only: df r1 r2 r3 r4 simp_thms)
  qed
  have h: "read_data_step_ndc8 ex_sd ex_step = Inl KeyError"
  proof -
    have ex: "\<exists>s\<in>set (kept_step ex_step). ex_sd (sint_at s 24 1) = None"
      unfolding ex_step_kept using n by simp
    show ?thesis
      by (rule T[OF g(5), THEN conjunct2, THEN conjunct2, THEN conjunct2, THEN conjunct2, THEN conjunct2,
        THEN conjunct2, THEN conjunct2, THEN conjunct1, rule_format, OF conjI[OF t(7) ex]])
  qed
  have k: "length (kept_runInfo ex_runInfo) = 6" unfolding ex_runInfo_kept by simp
  show ?thesis
    by (intro conjI g t a b c d e f h n k ex_tail_subs ex_step_ok_kept ex_step_kept)
qed


section \<open>Synthetic records\<close>

lemma length_le_bytes: "length (le_bytes n x) = n"
  by (induction n x rule: le_bytes.induct) auto

lemma le_nat_le_bytes: "int (le_nat (le_bytes n x)) = x mod 256 ^ n"
proof (induction n x rule: le_bytes.induct)
  case (1 x) show ?case by simp
next
  case (2 n x)
  have u: "int (unat (word_of_int x :: byte)) = x mod 256"
    by (simp add: unsigned_of_int take_bit_eq_mod)
  have "int (le_nat (le_bytes (Suc n) x)) = x mod 256 + 256 * ((x div 256) mod 256 ^ n)"
    using 2 u by simp
  also have "\<dots> = x mod (256 * 256 ^ n)"
    by (simp add: zmod_zmult2_eq)
  finally show ?case by simp
qed

lemma uint_at_le_bytes:
  assumes "length pre = off" and "0 \<le> x" and "x < 256 ^ w"
  shows "uint_at (pre @ le_bytes w x @ post) off w = x"
proof -
  have "off + w \<le> length (pre @ le_bytes w x @ post)" using assms(1) by (simp add: length_le_bytes)
  from le_nat_at[OF this] have "uint_at (pre @ le_bytes w x @ post) off w
      = int (le_nat (take w (drop off (pre @ le_bytes w x @ post))))" by simp
  also have "take w (drop off (pre @ le_bytes w x @ post)) = le_bytes w x"
    using assms(1) by (simp add: length_le_bytes)
  finally show ?thesis using assms(2,3) by (simp add: le_nat_le_bytes)
qed

lemma sint_at_le_bytes:
  assumes "length pre = off" and "0 < w" and "- (2 ^ (8 * w - 1)) \<le> x" and "x < 2 ^ (8 * w - 1)"
  shows "sint_at (pre @ le_bytes w x @ post) off w = x"
proof -
  have p: "(256::int) ^ w = 2 * 2 ^ (8 * w - 1)"
  proof -
    have "(256::int) ^ w = 2 ^ (8 * w)" by (simp add: power_mult)
    also have "\<dots> = 2 * 2 ^ (8 * w - 1)"
      using assms(2) by (metis power_eq_if mult_is_0 neq0_conv zero_neq_numeral)
    finally show ?thesis .
  qed
  have p2: "(2::int) ^ (8 * w) = 2 * 2 ^ (8 * w - 1)" using p by (simp add: power_mult)
  have "off + w \<le> length (pre @ le_bytes w x @ post)" using assms(1) by (simp add: length_le_bytes)
  from le_nat_at[OF this] have "uint_at (pre @ le_bytes w x @ post) off w
      = int (le_nat (take w (drop off (pre @ le_bytes w x @ post))))" by simp
  also have "take w (drop off (pre @ le_bytes w x @ post)) = le_bytes w x"
    using assms(1) by (simp add: length_le_bytes)
  finally have u: "uint_at (pre @ le_bytes w x @ post) off w = x mod 256 ^ w"
    by (simp add: le_nat_le_bytes)
  show ?thesis
  proof (cases "0 \<le> x")
    case True
    then have "x mod 256 ^ w = x" using assms(4) p by simp
    then show ?thesis unfolding sint_at_def u using assms(4) by simp
  next
    case False
    then have "x mod 256 ^ w = x + 256 ^ w"
      using assms(3) p by (intro int_mod_pos_eq[where q = "-1"]) auto
    then show ?thesis unfolding sint_at_def u using False assms(3) p p2 by simp
  qed
qed

lemma le_nat_le_bytes_id: "0 \<le> x \<Longrightarrow> x < 256 ^ w \<Longrightarrow> int (le_nat (le_bytes w x)) = x"
  by (simp add: le_nat_le_bytes)

lemma le_int_le_bytes_id:
  assumes "0 < w" and "- (2 ^ (8 * w - 1)) \<le> x" and "x < 2 ^ (8 * w - 1)"
  shows "le_int (le_bytes w x) = x"
proof -
  have "le_int (take w (drop 0 (le_bytes w x))) = sint_at (le_bytes w x) 0 w"
    by (rule le_int_at) (simp_all add: length_le_bytes assms(1))
  moreover have "sint_at ([] @ le_bytes w x @ []) 0 w = x"
    by (rule sint_at_le_bytes[OF _ assms]) simp
  ultimately show ?thesis by (simp add: length_le_bytes)
qed

lemma length_main_slice: "length (main_slice f) = 94"
  by (simp add: main_slice_def length_le_bytes)

lemma main_slice_parts:
  "take 4 (drop 8 (main_slice f)) = le_bytes 4 (f_index f)"
  "take 4 (drop 12 (main_slice f)) = le_bytes 4 (f_cycle f)"
  "take 1 (drop 16 (main_slice f)) = le_bytes 1 (f_step f)"
  "take 1 (drop 17 (main_slice f)) = le_bytes 1 (f_status f)"
  "take 8 (drop 23 (main_slice f)) = le_bytes 8 (f_time f)"
  "take 4 (drop 31 (main_slice f)) = le_bytes 4 (f_voltage f)"
  "take 4 (drop 35 (main_slice f)) = le_bytes 4 (f_current f)"
  "take 8 (drop 43 (main_slice f)) = le_bytes 8 (f_charge_capacity f)"
  "take 8 (drop 51 (main_slice f)) = le_bytes 8 (f_discharge_capacity f)"
  "take 8 (drop 59 (main_slice f)) = le_bytes 8 (f_charge_energy f)"
  "take 8 (drop 67 (main_slice f)) = le_bytes 8 (f_discharge_energy f)"
  "take 2 (drop 75 (main_slice f)) = le_bytes 2 (f_year f)"
  "take 1 (drop 77 (main_slice f)) = le_bytes 1 (f_month f)"
  "take 1 (drop 78 (main_slice f)) = le_bytes 1 (f_day f)"
  "take 1 (drop 79 (main_slice f)) = le_bytes 1 (f_hour f)"
  "take 1 (drop 80 (main_slice f)) = le_bytes 1 (f_minute f)"
  "take 1 (drop 81 (main_slice f)) = le_bytes 1 (f_second f)"
  "take 4 (drop 82 (main_slice f)) = le_bytes 4 (f_range f)"
  by (simp_all add: main_slice_def length_le_bytes del: le_bytes.simps)

lemma main_slice_uint:
  assumes "off + w \<le> 94" and "take w (drop off (main_slice f)) = le_bytes w x"
    and "0 \<le> x" and "x < 256 ^ w"
  shows "uint_at (main_slice f) off w = x"
proof -
  have "off + w \<le> length (main_slice f)" using assms(1) by (simp add: length_main_slice)
  from le_nat_at[OF this] show ?thesis unfolding assms(2) using assms(3,4)
    by (simp add: le_nat_le_bytes_id)
qed

lemma main_slice_sint:
  assumes "off + w \<le> 94" and "take w (drop off (main_slice f)) = le_bytes w x"
    and "0 < w" and "- (2 ^ (8 * w - 1)) \<le> x" and "x < 2 ^ (8 * w - 1)"
  shows "sint_at (main_slice f) off w = x"
proof -
  have "off + w \<le> length (main_slice f)" using assms(1) by (simp add: length_main_slice)
  from le_int_at[OF this assms(3)] show ?thesis unfolding assms(2) using assms(3,4,5)
    by (simp add: le_int_le_bytes_id)
qed

text \<open>The fields of a synthetic record read back at the offsets of the layout table.\<close>

lemma main_slice_fields:
  assumes r: "fields_in_range f"
    and d: "valid_date (f_year f) (f_month f) (f_day f) (f_hour f) (f_minute f) (f_second f)"
  shows "uint_at (main_slice f) 8 4 = f_index f" "uint_at (main_slice f) 12 4 = f_cycle f"
    "uint_at (main_slice f) 16 1 = f_step f" "uint_at (main_slice f) 17 1 = f_status f"
    "uint_at (main_slice f) 23 8 = f_time f"
    "sint_at (main_slice f) 31 4 = f_voltage f" "sint_at (main_slice f) 35 4 = f_current f"
    "sint_at (main_slice f) 43 8 = f_charge_capacity f"
    "sint_at (main_slice f) 51 8 = f_discharge_capacity f"
    "sint_at (main_slice f) 59 8 = f_charge_energy f"
    "sint_at (main_slice f) 67 8 = f_discharge_energy f"
    "uint_at (main_slice f) 75 2 = f_year f" "uint_at (main_slice f) 77 1 = f_month f"
    "uint_at (main_slice f) 78 1 = f_day f" "uint_at (main_slice f) 79 1 = f_hour f"
    "uint_at (main_slice f) 80 1 = f_minute f" "uint_at (main_slice f) 81 1 = f_second f"
    "sint_at (main_slice f) 82 4 = f_range f"
proof -
  have dm: "days_in_month (f_year f) (f_month f) \<le> 31" by (simp add: days_in_month_def)
  show "uint_at (main_slice f) 8 4 = f_index f"
    using r by (intro main_slice_uint main_slice_parts) (simp_all add: fields_in_range_def)
  show "uint_at (main_slice f) 12 4 = f_cycle f"
    using r by (intro main_slice_uint main_slice_parts) (simp_all add: fields_in_range_def)
  show "uint_at (main_slice f) 16 1 = f_step f"
    using r by (intro main_slice_uint main_slice_parts) (simp_all add: fields_in_range_def)
  show "uint_at (main_slice f) 17 1 = f_status f"
    using r by (intro main_slice_uint main_slice_parts) (simp_all add: fields_in_range_def)
  show "uint_at (main_slice f) 23 8 = f_time f"
    using r by (intro main_slice_uint main_slice_parts) (simp_all add: fields_in_range_def)
  show "sint_at (main_slice f) 31 4 = f_voltage f"
    using r by (intro main_slice_sint main_slice_parts) (simp_all add: fields_in_range_def)
  show "sint_at (main_slice f) 35 4 = f_current f"
    using r by (intro main_slice_sint main_slice_parts) (simp_all add: fields_in_range_def)
  show "sint_at (main_slice f) 43 8 = f_charge_capacity f"
    using r by (intro main_slice_sint main_slice_parts) (simp_all add: fields_in_range_def)
  show "sint_at (main_slice f) 51 8 = f_discharge_capacity f"
    using r by (intro main_slice_sint main_slice_parts) (simp_all add: fields_in_range_def)
  show "sint_at (main_slice f) 59 8 = f_charge_energy f"
    using r by (intro main_slice_sint main_slice_parts) (simp_all add: fields_in_range_def)
  show "sint_at (main_slice f) 67 8 = f_discharge_energy f"
    using r by (intro main_slice_sint main_slice_parts) (simp_all add: fields_in_range_def)
  show "uint_at (main_slice f) 75 2 = f_year f"
    using d by (intro main_slice_uint main_slice_parts) (simp_all add: valid_date_def)
  show "uint_at (main_slice f) 77 1 = f_month f"
    using d by (intro main_slice_uint main_slice_parts) (simp_all add: valid_date_def)
  show "uint_at (main_slice f) 78 1 = f_day f"
    using d dm by (intro main_slice_uint main_slice_parts) (simp_all add: valid_date_def)
  show "uint_at (main_slice f) 79 1 = f_hour f"
    using d by (intro main_slice_uint main_slice_parts) (simp_all add: valid_date_def)
  show "uint_at (main_slice f) 80 1 = f_minute f"
    using d by (intro main_slice_uint main_slice_parts) (simp_all add: valid_date_def)
  show "uint_at (main_slice f) 81 1 = f_second f"
    using d by (intro main_slice_uint main_slice_parts) (simp_all add: valid_date_def)
  show "sint_at (main_slice f) 82 4 = f_range f"
    using r by (intro main_slice_sint main_slice_parts) (simp_all add: fields_in_range_def)
qed

text \<open>
  The round trip of the spec: the slice built from raw field values within their ranges
  decodes to those values with the scale factors applied.
\<close>

lemma main_slice_round_trip:
  assumes "fields_in_range f"
    and "valid_date (f_year f) (f_month f) (f_day f) (f_hour f) (f_minute f) (f_second f)"
    and "md (f_range f) = Some mult" and "sd (f_status f) = Some state"
  shows "bytes_to_list_ndc md sd (main_slice f) =
     Inr \<lparr>Index = f_index f,
          Cycle = f_cycle f + 1,
          Step = f_step f,
          Status = state,
          Time = of_int (f_time f) / 1000,
          Voltage = of_int (f_voltage f) / 10000,
          Current = of_int (f_current f) * mult,
          Charge_capacity = of_int (f_charge_capacity f) * mult / 3600,
          Discharge_capacity = of_int (f_discharge_capacity f) * mult / 3600,
          Charge_energy = of_int (f_charge_energy f) * mult / 3600,
          Discharge_energy = of_int (f_discharge_energy f) * mult / 3600,
          Timestamp = \<lparr>year = f_year f, month = f_month f, day = f_day f,
             hour = f_hour f, minute = f_minute f, second = f_second f\<rparr>\<rparr>"
  unfolding bytes_to_list_ndc_94[OF length_main_slice] main_slice_fields[OF assms(1,2)]
  using assms(2,3,4) by simp

end
